theory Spec2Isabelle
  imports Complex_Main
begin

section \<open>Tabular methods for finite Markov decision processes (FiniteMDP.py)\<close>

text \<open>
  The program works on numpy arrays of 64-bit floats.  For the planning and learning
  methods the embedding reads every float as a real number and every array as a list (a
  matrix as a list of rows, a tensor as a list of matrices), so arithmetic is exact there:
  rounding, \<open>nan\<close> and \<open>inf\<close> are outside that part of the model.  The rollout driver
  \<open>run_MDP_for_given_policy\<close> is different: what it hands to the sampler depends on how
  \<open>1e-30\<close> is absorbed by a sum and on \<open>0/0\<close>, so its weights are modelled as 64-bit
  floats with rounding to nearest, \<open>nan\<close> and the infinities.  States and actions are
  natural numbers.  A read outside an array raises \<open>IndexError\<close> in numpy; the model
  returns it as a value.
\<close>

subsection \<open>Errors, arrays and loops\<close>

datatype error = IndexError | ValueError | ZeroDivisionError | AssertionError | TypeError | NotANumber

type_synonym vec = "real list"
type_synonym mat = "real list list"
type_synonym tensor = "real list list list"

text \<open>\<open>x[i]\<close>, \<open>x[i, j]\<close> and \<open>x[i, j, k]\<close> with indices that come from \<open>range\<close>
  (never negative).\<close>

definition idx1 :: "'a list \<Rightarrow> nat \<Rightarrow> error + 'a" where
  "idx1 xs i = (if i < length xs then Inr (xs ! i) else Inl IndexError)"

definition idx2 :: "'a list list \<Rightarrow> nat \<Rightarrow> nat \<Rightarrow> error + 'a" where
  "idx2 m i j = (case idx1 m i of Inl e \<Rightarrow> Inl e | Inr row \<Rightarrow> idx1 row j)"

definition idx3 :: "'a list list list \<Rightarrow> nat \<Rightarrow> nat \<Rightarrow> nat \<Rightarrow> error + 'a" where
  "idx3 t i j k = (case idx1 t i of Inl e \<Rightarrow> Inl e | Inr m \<Rightarrow> idx2 m j k)"

text \<open>\<open>for x in xs: st = body(x, st)\<close>, where the body may raise.\<close>

fun for_loop :: "'i list \<Rightarrow> ('i \<Rightarrow> 'st \<Rightarrow> error + 'st) \<Rightarrow> 'st \<Rightarrow> error + 'st" where
  "for_loop [] body st = Inr st"
| "for_loop (x # xs) body st =
     (case body x st of Inl e \<Rightarrow> Inl e | Inr st' \<Rightarrow> for_loop xs body st')"

text \<open>\<open>max(xs)\<close> and \<open>np.max(xs)\<close>: \<open>ValueError\<close> on an empty sequence.\<close>

definition np_max :: "real list \<Rightarrow> error + real" where
  "np_max xs = (case xs of [] \<Rightarrow> Inl ValueError | x # ys \<Rightarrow> Inr (fold max ys x))"

text \<open>\<open>np.where(row == m)[0]\<close>: the indices of the entries equal to \<open>m\<close>, ascending.\<close>

definition np_where_eq :: "real list \<Rightarrow> real \<Rightarrow> nat list" where
  "np_where_eq row m = filter (\<lambda>a. row ! a = m) [0..<length row]"

text \<open>\<open>row[idxs] = v\<close> for a list of indices within the row.\<close>

definition assign_indices :: "real list \<Rightarrow> nat list \<Rightarrow> real \<Rightarrow> real list" where
  "assign_indices row idxs v = fold (\<lambda>a r. r[a := v]) idxs row"

text \<open>\<open>a.shape\<close> of a two-dimensional array and \<open>np.zeros((S, A))\<close>.\<close>

definition shape2 :: "mat \<Rightarrow> nat \<times> nat" where
  "shape2 m = (length m, case m of [] \<Rightarrow> 0 | row # _ \<Rightarrow> length row)"

definition zeros2 :: "nat \<Rightarrow> nat \<Rightarrow> mat" where
  "zeros2 S A = replicate S (replicate A 0)"

text \<open>A matrix with \<open>S\<close> rows of \<open>A\<close> entries each.\<close>

definition is_matrix :: "nat \<Rightarrow> nat \<Rightarrow> mat \<Rightarrow> bool" where
  "is_matrix S A m = (length m = S \<and> list_all (\<lambda>row. length row = A) m)"

subsection \<open>Policy extraction: \<open>convert_action_values_into_policy\<close>\<close>

text \<open>One pass of the loop over \<open>s\<close>: the row maximum, the indices attaining it, and the
  assignment \<open>policy[s, maxIndices] = 1.0 / len(maxIndices[0])\<close>.\<close>

definition policy_row_step :: "mat \<Rightarrow> nat \<Rightarrow> mat \<Rightarrow> error + mat" where
  "policy_row_step action_values s policy =
     (case idx1 action_values s of
        Inl e \<Rightarrow> Inl e
      | Inr row \<Rightarrow>
     (case np_max row of
        Inl e \<Rightarrow> Inl e
      | Inr maxPerState \<Rightarrow>
        let maxIndices = np_where_eq row maxPerState in
        if length maxIndices = 0 then Inl ZeroDivisionError
        else (case idx1 policy s of
                Inl e \<Rightarrow> Inl e
              | Inr prow \<Rightarrow>
                  Inr (policy[s := assign_indices prow maxIndices
                                     (1 / real (length maxIndices))]))))"

definition convert_action_values_into_policy :: "mat \<Rightarrow> error + mat" where
  "convert_action_values_into_policy action_values =
     (case shape2 action_values of (S, A) \<Rightarrow>
        for_loop [0..<S] (policy_row_step action_values) (zeros2 S A))"

text \<open>The policy the specification describes: uniform over the maximising actions of
  each row, zero elsewhere.\<close>

definition argmax_set :: "real list \<Rightarrow> nat set" where
  "argmax_set row = {a. a < length row \<and> row ! a = Max (set row)}"

definition greedy_row :: "real list \<Rightarrow> real list" where
  "greedy_row row =
     map (\<lambda>a. if a \<in> argmax_set row then 1 / real (card (argmax_set row)) else 0)
       [0..<length row]"

subsection \<open>The environment contract and the \<open>FiniteMDP\<close> object\<close>

text \<open>
  The environment is a collaborator of the class, not part of it.  It is taken as a
  parameter: a state of an arbitrary type \<open>'e\<close> (which also carries whatever randomness
  the environment uses) and the attributes and methods the class reads, as functions of
  that state.  \<open>step\<close> returns the new environment state and the tuple
  \<open>(ob, reward, gameOver, history)\<close>.
\<close>

datatype space = Discrete nat | Box | MultiBinary nat | MultiDiscrete "nat list"

record ('e, 'h) env_ops =
  action_space :: "'e \<Rightarrow> space"
  observation_space :: "'e \<Rightarrow> space"
  nextStateProbability :: "'e \<Rightarrow> tensor"
  rewardsTable :: "'e \<Rightarrow> tensor"
  reset :: "'e \<Rightarrow> 'e"
  get_state :: "'e \<Rightarrow> nat"
  step :: "'e \<Rightarrow> nat \<Rightarrow> 'e \<times> nat \<times> real \<times> bool \<times> 'h"

text \<open>The attributes of a \<open>FiniteMDP\<close> object; \<open>mdp_S\<close> and \<open>mdp_A\<close> are \<open>self.S\<close>
  and \<open>self.A\<close>.\<close>

record 'e FiniteMDP =
  version :: string
  environment :: 'e
  mdp_S :: nat
  mdp_A :: nat
  currentObservation :: nat
  currentIteration :: nat

fun is_Discrete :: "space \<Rightarrow> bool" where
  "is_Discrete (Discrete n) = True"
| "is_Discrete _ = False"

text \<open>\<open>__init__\<close>: the two \<open>assert isinstance(..., spaces.Discrete)\<close>, the sizes read
  from the spaces, and the reset of the environment.\<close>

definition FiniteMDP_init :: "('e, 'h) env_ops \<Rightarrow> 'e \<Rightarrow> error + 'e FiniteMDP" where
  "FiniteMDP_init ops env =
     (case action_space ops env of
        Discrete nA \<Rightarrow>
          (case observation_space ops env of
             Discrete nS \<Rightarrow>
               Inr \<lparr>version = ''0.1.1'', environment = reset ops env, mdp_S = nS, mdp_A = nA,
                    currentObservation = 0, currentIteration = 0\<rparr>
           | _ \<Rightarrow> Inl AssertionError)
      | _ \<Rightarrow> Inl AssertionError)"

text \<open>A tensor of shape \<open>S \<times> A \<times> S'\<close>.\<close>

definition is_tensor :: "nat \<Rightarrow> nat \<Rightarrow> nat \<Rightarrow> tensor \<Rightarrow> bool" where
  "is_tensor S A S' t = (length t = S \<and> list_all (is_matrix A S') t)"

subsection \<open>Epsilon-greedy selection: \<open>chooseAction\<close>\<close>

text \<open>
  The global random generator is made explicit.  Each call of \<open>chooseAction\<close> gets a
  pair of draws \<open>(u, k)\<close>: \<open>np.random.binomial(1, p)\<close> is 1 exactly when the uniform
  draw \<open>u\<close> from \<open>[0, 1)\<close> is below \<open>p\<close> (so it is 1 with probability \<open>p\<close>), and
  \<open>np.random.choice(xs)\<close> returns the entry of \<open>xs\<close> at the position the draw \<open>k\<close>
  selects, every position being possible.  Both raise \<open>ValueError\<close> as numpy does: on a
  probability outside \<open>[0, 1]\<close>, and on an empty sequence.
\<close>

definition binomial1 :: "real \<Rightarrow> real \<Rightarrow> error + nat" where
  "binomial1 p u = (if p < 0 \<or> 1 < p then Inl ValueError else Inr (if u < p then 1 else 0))"

definition random_choice :: "'a list \<Rightarrow> nat \<Rightarrow> error + 'a" where
  "random_choice xs k = (if xs = [] then Inl ValueError else Inr (xs ! (k mod length xs)))"

text \<open>\<open>[action_ for action_, value_ in enumerate(values_) if value_ == np.max(values_)]\<close>;
  on an empty row the comprehension never evaluates \<open>np.max\<close>.\<close>

definition argmax_actions :: "real list \<Rightarrow> nat list" where
  "argmax_actions values =
     (case np_max values of Inl e \<Rightarrow> [] | Inr m \<Rightarrow> np_where_eq values m)"

definition chooseAction ::
  "'e FiniteMDP \<Rightarrow> nat \<Rightarrow> mat \<Rightarrow> real \<Rightarrow> real \<times> nat \<Rightarrow> error + nat" where
  "chooseAction self state stateActionValues explorationProbEpsilon draw =
     (case draw of (u, k) \<Rightarrow>
     (case binomial1 explorationProbEpsilon u of
        Inl e \<Rightarrow> Inl e
      | Inr b \<Rightarrow>
        if b = 1 then random_choice [0..<mdp_A self] k
        else (case idx1 stateActionValues state of
                Inl e \<Rightarrow> Inl e
              | Inr values \<Rightarrow> random_choice (argmax_actions values) k)))"

text \<open>Everything \<open>chooseAction\<close> can return, over all draws.\<close>

definition chooseAction_outcomes :: "'e FiniteMDP \<Rightarrow> nat \<Rightarrow> mat \<Rightarrow> real \<Rightarrow> (error + nat) set" where
  "chooseAction_outcomes self state stateActionValues explorationProbEpsilon =
     {r. \<exists>u k. 0 \<le> u \<and> u < 1 \<and>
        r = chooseAction self state stateActionValues explorationProbEpsilon (u, k)}"

subsection \<open>A Q-learning episode: \<open>q_learning\<close>\<close>

text \<open>
  The state of the loop: the object (whose environment \<open>step\<close> changes), the table
  \<open>stateActionValues\<close> (updated in place), \<open>currentState\<close> and \<open>rewards\<close>.  The field
  \<open>q_lookups\<close> is not in the source: it records the rewards read from the reward tensor,
  in order, so that the returned value can be related to them.
\<close>

record 'e q_state =
  q_self :: "'e FiniteMDP"
  q_stateActionValues :: mat
  q_currentState :: nat
  q_rewards :: real
  q_lookups :: "real list"

text \<open>One pass of the loop.  \<open>rnd numIterations\<close> is the pair of draws \<open>chooseAction\<close>
  gets in this pass.  The reward that \<open>step\<close> reports is bound and then overwritten by
  the entry of the reward tensor, as in the source.\<close>

definition q_learning_step ::
  "('e, 'h) env_ops \<Rightarrow> real \<Rightarrow> real \<Rightarrow> real \<Rightarrow> (nat \<Rightarrow> real \<times> nat) \<Rightarrow> nat \<Rightarrow>
     'e q_state \<Rightarrow> error + 'e q_state" where
  "q_learning_step ops stepSizeAlpha explorationProbEpsilon discountGamma rnd numIterations st =
     (let self = q_self st; stateActionValues = q_stateActionValues st;
          currentState = q_currentState st in
      case chooseAction self currentState stateActionValues explorationProbEpsilon
             (rnd numIterations) of
        Inl e \<Rightarrow> Inl e
      | Inr currentAction \<Rightarrow>
     (case step ops (environment self) currentAction of
        (env, ob, reward, gameOver, history) \<Rightarrow>
      let newState = get_state ops env in
     (case idx3 (rewardsTable ops env) currentState currentAction newState of
        Inl e \<Rightarrow> Inl e
      | Inr reward \<Rightarrow>
      let rewards = q_rewards st + reward in
     (case idx2 stateActionValues currentState currentAction of
        Inl e \<Rightarrow> Inl e
      | Inr q \<Rightarrow>
     (case idx1 stateActionValues newState of
        Inl e \<Rightarrow> Inl e
      | Inr newRow \<Rightarrow>
     (case np_max newRow of
        Inl e \<Rightarrow> Inl e
      | Inr best \<Rightarrow>
        Inr \<lparr>q_self = self\<lparr>environment := env\<rparr>,
             q_stateActionValues =
               stateActionValues[currentState :=
                 (stateActionValues ! currentState)[currentAction :=
                    q + stepSizeAlpha * (reward + discountGamma * best - q)]],
             q_currentState = newState,
             q_rewards = rewards,
             q_lookups = q_lookups st @ [reward]\<rparr>))))))"

text \<open>The loop of the episode, from the state the environment is in.\<close>

definition q_episode ::
  "('e, 'h) env_ops \<Rightarrow> 'e FiniteMDP \<Rightarrow> mat \<Rightarrow> nat \<Rightarrow> real \<Rightarrow> real \<Rightarrow> real \<Rightarrow>
     (nat \<Rightarrow> real \<times> nat) \<Rightarrow> error + 'e q_state" where
  "q_episode ops self stateActionValues maxNumIterationsQLearning stepSizeAlpha
      explorationProbEpsilon discountGamma rnd =
     for_loop [0..<maxNumIterationsQLearning]
       (q_learning_step ops stepSizeAlpha explorationProbEpsilon discountGamma rnd)
       \<lparr>q_self = self, q_stateActionValues = stateActionValues,
        q_currentState = get_state ops (environment self), q_rewards = 0, q_lookups = []\<rparr>"

text \<open>\<open>q_learning\<close> returns \<open>rewards / maxNumIterationsQLearning\<close>; the model returns
  with it the object and the table as the episode left them.  With no iterations the
  division is \<open>0.0 / 0\<close>, which raises \<open>ZeroDivisionError\<close>.\<close>

definition q_learning ::
  "('e, 'h) env_ops \<Rightarrow> 'e FiniteMDP \<Rightarrow> mat \<Rightarrow> nat \<Rightarrow> real \<Rightarrow> real \<Rightarrow> real \<Rightarrow>
     (nat \<Rightarrow> real \<times> nat) \<Rightarrow> error + real \<times> 'e FiniteMDP \<times> mat" where
  "q_learning ops self stateActionValues maxNumIterationsQLearning stepSizeAlpha
      explorationProbEpsilon discountGamma rnd =
     (case q_episode ops self stateActionValues maxNumIterationsQLearning stepSizeAlpha
             explorationProbEpsilon discountGamma rnd of
        Inl e \<Rightarrow> Inl e
      | Inr st \<Rightarrow>
          if maxNumIterationsQLearning = 0 then Inl ZeroDivisionError
          else Inr (q_rewards st / real maxNumIterationsQLearning, q_self st,
                    q_stateActionValues st))"

text \<open>The same environment with the reward that \<open>step\<close> reports changed by \<open>f\<close>.\<close>

definition with_reported_reward :: "(real \<Rightarrow> real) \<Rightarrow> ('e, 'h) env_ops \<Rightarrow> ('e, 'h) env_ops" where
  "with_reported_reward f ops =
     ops\<lparr>step := (\<lambda>e a. case step ops e a of
        (env, ob, reward, gameOver, history) \<Rightarrow> (env, ob, f reward, gameOver, history))\<rparr>"

subsection \<open>64-bit floats, as the rollout driver computes with them\<close>

text \<open>
  A float64 value is a real number, an infinity or \<open>nan\<close>.  The sign of a zero is not
  kept: additions and comparisons do not read it, and a division of a non-zero number by
  zero takes the zero as positive.
\<close>

datatype float64 = Finite real | PInf | NInf | NaN

text \<open>The number of binary digits of a natural number.\<close>

fun bit_length :: "nat \<Rightarrow> nat" where
  "bit_length n = (if n = 0 then 0 else Suc (bit_length (n div 2)))"

declare bit_length.simps [simp del]

text \<open>For \<open>x > 0\<close>, the exponent \<open>e\<close> with \<open>2^e \<le> x < 2^(e+1)\<close>.\<close>

definition exponent_of :: "real \<Rightarrow> int" where
  "exponent_of x =
     (if 1 \<le> x then int (bit_length (nat \<lfloor>x\<rfloor>)) - 1
      else - int (bit_length (nat (\<lceil>1 / x\<rceil> - 1))))"

definition pow2 :: "int \<Rightarrow> real" where
  "pow2 e = (if 0 \<le> e then 2 ^ nat e else 1 / 2 ^ nat (- e))"

text \<open>Rounding to the nearest integer, a tie going to the even one.\<close>

definition round_half_even :: "real \<Rightarrow> int" where
  "round_half_even x =
     (let f = \<lfloor>x\<rfloor>; d = x - of_int f
      in if d < 1 / 2 then f else if 1 / 2 < d then f + 1 else if even f then f else f + 1)"

text \<open>
  The float64 nearest to a real number (IEEE 754 binary64, round to nearest, ties to
  even): 53 significant bits, so the floats between \<open>2^e\<close> and \<open>2^(e+1)\<close> are \<open>2^(e-52)\<close>
  apart; below \<open>2^(-1022)\<close> the spacing stays \<open>2^(-1074)\<close>; a result of \<open>2^1024\<close> or more
  is an infinity.
\<close>

definition round64 :: "real \<Rightarrow> float64" where
  "round64 x =
     (if x = 0 then Finite 0
      else let e = max (exponent_of \<bar>x\<bar>) (- 1022);
               q = pow2 (e - 52);
               y = of_int (round_half_even (\<bar>x\<bar> / q)) * q
           in if 2 ^ 1024 \<le> y then (if 0 < x then PInf else NInf)
              else Finite (if 0 < x then y else - y))"

text \<open>The values the format holds: those that rounding leaves alone.\<close>

definition representable :: "float64 \<Rightarrow> bool" where
  "representable a = (case a of Finite x \<Rightarrow> round64 x = Finite x | _ \<Rightarrow> True)"

text \<open>\<open>-x\<close>, \<open>x + y\<close>, \<open>x / y\<close> and \<open>x < y\<close> on floats.\<close>

fun fneg :: "float64 \<Rightarrow> float64" where
  "fneg (Finite x) = Finite (- x)"
| "fneg PInf = NInf"
| "fneg NInf = PInf"
| "fneg NaN = NaN"

fun fadd :: "float64 \<Rightarrow> float64 \<Rightarrow> float64" where
  "fadd (Finite x) (Finite y) = round64 (x + y)"
| "fadd (Finite x) PInf = PInf"
| "fadd (Finite x) NInf = NInf"
| "fadd PInf (Finite y) = PInf"
| "fadd NInf (Finite y) = NInf"
| "fadd PInf PInf = PInf"
| "fadd NInf NInf = NInf"
| "fadd PInf NInf = NaN"
| "fadd NInf PInf = NaN"
| "fadd NaN y = NaN"
| "fadd x NaN = NaN"

fun fdiv :: "float64 \<Rightarrow> float64 \<Rightarrow> float64" where
  "fdiv (Finite x) (Finite y) =
     (if y = 0 then (if x = 0 then NaN else if 0 < x then PInf else NInf)
      else round64 (x / y))"
| "fdiv (Finite x) PInf = Finite 0"
| "fdiv (Finite x) NInf = Finite 0"
| "fdiv PInf (Finite y) = (if 0 \<le> y then PInf else NInf)"
| "fdiv NInf (Finite y) = (if 0 \<le> y then NInf else PInf)"
| "fdiv PInf PInf = NaN"
| "fdiv PInf NInf = NaN"
| "fdiv NInf PInf = NaN"
| "fdiv NInf NInf = NaN"
| "fdiv NaN y = NaN"
| "fdiv x NaN = NaN"

fun flt :: "float64 \<Rightarrow> float64 \<Rightarrow> bool" where
  "flt (Finite x) (Finite y) = (x < y)"
| "flt (Finite x) PInf = True"
| "flt (Finite x) NInf = False"
| "flt PInf y = False"
| "flt NInf (Finite y) = True"
| "flt NInf PInf = True"
| "flt NInf NInf = False"
| "flt NaN y = False"
| "flt x NaN = False"

text \<open>
  What \<open>np.squeeze(policy[s])\<close> gives: the row itself, or, for a row of one entry, an
  array without dimensions.  Either is a view of the row.
\<close>

datatype ndarray = Array0 float64 | Array1 "float64 list"

definition np_squeeze :: "float64 list \<Rightarrow> ndarray" where
  "np_squeeze row = (case row of [x] \<Rightarrow> Array0 x | _ \<Rightarrow> Array1 row)"

definition entries :: "ndarray \<Rightarrow> float64 list" where
  "entries a = (case a of Array0 x \<Rightarrow> [x] | Array1 xs \<Rightarrow> xs)"

text \<open>An operation applied to every entry (\<open>a += c\<close>, \<open>a /= c\<close>, \<open>np.ones(a.shape)\<close>).\<close>

definition array_map :: "(float64 \<Rightarrow> float64) \<Rightarrow> ndarray \<Rightarrow> ndarray" where
  "array_map f a = (case a of Array0 x \<Rightarrow> Array0 (f x) | Array1 xs \<Rightarrow> Array1 (map f xs))"

text \<open>
  \<open>np.sum\<close>.  numpy adds fewer than eight numbers from left to right; up to 128 numbers
  it adds into eight running sums, joins them in pairs and adds the rest from left to
  right; a longer array is split in two parts and the two sums are added.  The result is
  added to the initial value 0.
\<close>

definition sum_from :: "float64 \<Rightarrow> float64 list \<Rightarrow> float64" where
  "sum_from res xs = fold (\<lambda>x res. fadd res x) xs res"

function pairwise_sum :: "float64 list \<Rightarrow> float64" where
  "pairwise_sum a =
     (let n = length a in
      if n < 8 then sum_from (Finite 0) a
      else if n \<le> 128 then
        (let r = fold (\<lambda>i r. r[i mod 8 := fadd (r ! (i mod 8)) (a ! i)]) [8..<n - n mod 8]
                   (take 8 a);
             res = fadd (fadd (fadd (r ! 0) (r ! 1)) (fadd (r ! 2) (r ! 3)))
                        (fadd (fadd (r ! 4) (r ! 5)) (fadd (r ! 6) (r ! 7)))
         in sum_from res (drop (n - n mod 8) a))
      else
        (let n2 = n div 2 - (n div 2) mod 8
         in fadd (pairwise_sum (take n2 a)) (pairwise_sum (drop n2 a))))"
  by pat_completeness auto

termination
  by (relation "measure length") auto

declare pairwise_sum.simps [simp del]

definition np_sum64 :: "ndarray \<Rightarrow> float64" where
  "np_sum64 a = fadd (Finite 0) (pairwise_sum (entries a))"

text \<open>\<open>np.min\<close>: \<open>nan\<close> if an entry is \<open>nan\<close>, \<open>ValueError\<close> on an array without
  entries.\<close>

definition np_minimum :: "float64 \<Rightarrow> float64 \<Rightarrow> float64" where
  "np_minimum x y = (if x = NaN \<or> y = NaN then NaN else if flt y x then y else x)"

definition np_min64 :: "ndarray \<Rightarrow> error + float64" where
  "np_min64 a =
     (case entries a of [] \<Rightarrow> Inl ValueError | x # ys \<Rightarrow> Inr (fold (\<lambda>y m. np_minimum m y) ys x))"

subsection \<open>The rollout driver: \<open>run_MDP_for_given_policy\<close>\<close>

text \<open>
  What a call hands back (\<open>None\<close> when the body ends without \<open>return\<close>) and what it
  prints.
\<close>

datatype pyvalue = PyNone | PyFloat real

datatype 'h printed = PrintHistory 'h | PrintTotalReward real

text \<open>
  The weights of one pass, from the row \<open>policy[s]\<close>.  The flag tells whether
  \<open>myweights\<close> is still a view of the row of the caller's matrix (it is unless
  \<open>np.ones\<close> replaced it), since \<open>+=\<close> and \<open>/=\<close> then write into that matrix.
  A division by a zero sum gives \<open>nan\<close> or infinite weights (numpy warns and goes on).
\<close>

definition prepare_weights :: "float64 list \<Rightarrow> error + bool \<times> ndarray" where
  "prepare_weights row =
     (let myweights = np_squeeze row;
          sumWeights = np_sum64 myweights;
          view = (sumWeights \<noteq> Finite 0);
          myweights = (if sumWeights = Finite 0 then array_map (\<lambda>w. Finite 1) myweights
                       else myweights)
      in case np_min64 myweights of
           Inl e \<Rightarrow> Inl e
         | Inr minWeight \<Rightarrow>
             let myweights =
                   (if flt minWeight (Finite 0)
                    then array_map (\<lambda>w. fadd w (fadd (fneg minWeight) (round64 (1 / 10 ^ 30))))
                           myweights
                    else myweights);
                 sumWeights = np_sum64 myweights
             in Inr (view, array_map (\<lambda>w. fdiv w sumWeights) myweights))"

text \<open>
  The state of the loop: the object, the caller's policy matrix, \<open>s\<close>, \<open>totalReward\<close>
  and what has been printed.  Two fields are not in the source: \<open>r_sampled\<close> records the
  weight vectors passed to the sampler and \<open>r_reported\<close> the rewards \<open>step\<close> reported,
  one entry per call.
\<close>

record ('e, 'h) rollout =
  r_self :: "'e FiniteMDP"
  r_policy :: "float64 list list"
  r_s :: nat
  r_totalReward :: real
  r_stdout :: "'h printed list"
  r_sampled :: "ndarray list"
  r_reported :: "real list"

datatype outcome = Continue | Break | Raise error

text \<open>
  One pass of the loop.  The sampler \<open>random.choices\<close> is a parameter: it gets the
  population \<open>np.arange(self.A)\<close>, the weights and the draw of this pass, and returns an
  action or raises.  \<open>postprocessing_MDP_step\<close> does nothing.
\<close>

definition rollout_step ::
  "('e, 'h) env_ops \<Rightarrow> (nat list \<Rightarrow> ndarray \<Rightarrow> 'd \<Rightarrow> error + nat) \<Rightarrow> bool \<Rightarrow> (nat \<Rightarrow> 'd) \<Rightarrow>
     nat \<Rightarrow> ('e, 'h) rollout \<Rightarrow> outcome \<times> ('e, 'h) rollout" where
  "rollout_step ops choices printInfo rnd it st =
     (case idx1 (r_policy st) (r_s st) of
        Inl e \<Rightarrow> (Raise e, st)
      | Inr row \<Rightarrow>
     (case prepare_weights row of
        Inl e \<Rightarrow> (Raise e, st)
      | Inr (view, myweights) \<Rightarrow>
      let st = st\<lparr>r_policy := (if view then (r_policy st)[r_s st := entries myweights]
                                else r_policy st),
                   r_sampled := r_sampled st @ [myweights]\<rparr> in
     (case choices [0..<mdp_A (r_self st)] myweights (rnd it) of
        Inl e \<Rightarrow> (Raise e, st)
      | Inr action \<Rightarrow>
     (case step ops (environment (r_self st)) action of
        (env, ob, reward, gameOver, history) \<Rightarrow>
          (if gameOver then Break else Continue,
           st\<lparr>r_self := (r_self st)\<lparr>environment := env\<rparr>,
              r_s := get_state ops env,
              r_totalReward := r_totalReward st + reward,
              r_stdout := r_stdout st @ (if reward < - 5 then [PrintHistory history] else [])
                            @ (if printInfo then [PrintHistory history] else []),
              r_reported := r_reported st @ [reward]\<rparr>)))))"

text \<open>\<open>for it in range(maxNumIterations)\<close> with its \<open>break\<close>.\<close>

fun rollout_loop ::
  "(nat \<Rightarrow> 'st \<Rightarrow> outcome \<times> 'st) \<Rightarrow> nat list \<Rightarrow> 'st \<Rightarrow> error option \<times> 'st" where
  "rollout_loop body [] st = (None, st)"
| "rollout_loop body (it # its) st =
     (case body it st of
        (Raise e, st') \<Rightarrow> (Some e, st')
      | (Break, st') \<Rightarrow> (None, st')
      | (Continue, st') \<Rightarrow> rollout_loop body its st')"

text \<open>
  The whole call: what it returns or raises, and the final state.  The body has no
  \<open>return\<close> statement, so a call that does not raise returns \<open>None\<close>; the total is
  printed when \<open>printInfo\<close> is set.
\<close>

definition run_MDP_for_given_policy ::
  "('e, 'h) env_ops \<Rightarrow> (nat list \<Rightarrow> ndarray \<Rightarrow> 'd \<Rightarrow> error + nat) \<Rightarrow> 'e FiniteMDP \<Rightarrow>
     float64 list list \<Rightarrow> nat \<Rightarrow> bool \<Rightarrow> bool \<Rightarrow> (nat \<Rightarrow> 'd) \<Rightarrow>
     (error + pyvalue) \<times> ('e, 'h) rollout" where
  "run_MDP_for_given_policy ops choices self policy maxNumIterations printInfo
      printPostProcessingInfo rnd =
     (let env = reset ops (environment self);
          s = get_state ops env;
          totalReward = 0;
          st = \<lparr>r_self = self\<lparr>environment := env\<rparr>, r_policy = policy, r_s = s,
                r_totalReward = totalReward, r_stdout = [], r_sampled = [], r_reported = []\<rparr>
      in case rollout_loop (rollout_step ops choices printInfo rnd) [0..<maxNumIterations] st of
           (Some e, st') \<Rightarrow> (Inl e, st')
         | (None, st') \<Rightarrow>
             (Inr PyNone,
              if printInfo
              then st'\<lparr>r_stdout := r_stdout st' @ [PrintTotalReward (r_totalReward st')]\<rparr>
              else st'))"

subsection \<open>Iterative policy evaluation: \<open>compute_state_values\<close>\<close>

text \<open>\<open>np.sum(np.abs(new_state_values - state_values))\<close>, and the same for two
  matrices of one shape.\<close>

definition improvement_of :: "vec \<Rightarrow> vec \<Rightarrow> real" where
  "improvement_of new_state_values state_values =
     sum_list (map (\<lambda>(x, y). \<bar>x - y\<bar>) (zip new_state_values state_values))"

definition improvement_of2 :: "mat \<Rightarrow> mat \<Rightarrow> real" where
  "improvement_of2 new_action_values action_values =
     sum_list (map (\<lambda>(r, r'). improvement_of r r') (zip new_action_values action_values))"











text \<open>
  A loop that repeats the pass \<open>G\<close> from \<open>V\<close> stops in pass \<open>j + 1\<close>: that pass
  is the first whose improvement is below the tolerance.
\<close>

definition stops_at :: "(vec \<Rightarrow> vec) \<Rightarrow> vec \<Rightarrow> nat \<Rightarrow> bool" where
  "stops_at G V j =
     (improvement_of ((G ^^ Suc j) V) ((G ^^ j) V) < 1 / 10 ^ 4 \<and>
      (\<forall>i<j. \<not> improvement_of ((G ^^ Suc i) V) ((G ^^ i) V) < 1 / 10 ^ 4))"

text \<open>A list of probabilities: non-negative entries that sum to 1.\<close>

definition is_distribution :: "real list \<Rightarrow> bool" where
  "is_distribution xs = (list_all (\<lambda>x. 0 \<le> x) xs \<and> sum_list xs = 1)"

subsection \<open>Value iteration: \<open>compute_optimal_state_values\<close>\<close>

text \<open>The loops over \<open>nexts\<close>, over \<open>a\<close> (collecting \<open>a_candidates\<close>) and over \<open>s\<close>;
  all reads are from \<open>state_values\<close>, the copy made after the previous pass.\<close>

definition osv_nexts_step ::
  "tensor \<Rightarrow> tensor \<Rightarrow> real \<Rightarrow> vec \<Rightarrow> nat \<Rightarrow> nat \<Rightarrow> nat \<Rightarrow> real \<Rightarrow> error + real" where
  "osv_nexts_step P R discountGamma state_values s a nexts value =
     (case idx3 P s a nexts of
        Inl e \<Rightarrow> Inl e
      | Inr p \<Rightarrow>
     (case idx3 R s a nexts of
        Inl e \<Rightarrow> Inl e
      | Inr r \<Rightarrow>
     (case idx1 state_values nexts of
        Inl e \<Rightarrow> Inl e
      | Inr v \<Rightarrow> Inr (value + p * (r + discountGamma * v)))))"

definition osv_action_step ::
  "nat \<Rightarrow> tensor \<Rightarrow> tensor \<Rightarrow> real \<Rightarrow> vec \<Rightarrow> nat \<Rightarrow> nat \<Rightarrow> real list \<Rightarrow> error + real list" where
  "osv_action_step S P R discountGamma state_values s a a_candidates =
     (case for_loop [0..<S] (osv_nexts_step P R discountGamma state_values s a) 0 of
        Inl e \<Rightarrow> Inl e
      | Inr value \<Rightarrow> Inr (a_candidates @ [value]))"

definition osv_state_step ::
  "nat \<Rightarrow> nat \<Rightarrow> tensor \<Rightarrow> tensor \<Rightarrow> real \<Rightarrow> vec \<Rightarrow> nat \<Rightarrow> vec \<Rightarrow> error + vec" where
  "osv_state_step S A P R discountGamma state_values s new_state_values =
     (case for_loop [0..<A] (osv_action_step S P R discountGamma state_values s) [] of
        Inl e \<Rightarrow> Inl e
      | Inr a_candidates \<Rightarrow>
     (case np_max a_candidates of
        Inl e \<Rightarrow> Inl e
      | Inr m \<Rightarrow> Inr (new_state_values[s := m])))"

definition osv_sweep ::
  "nat \<Rightarrow> nat \<Rightarrow> tensor \<Rightarrow> tensor \<Rightarrow> real \<Rightarrow> vec \<Rightarrow> vec \<Rightarrow> error + vec" where
  "osv_sweep S A P R discountGamma state_values new_state_values =
     for_loop [0..<S] (osv_state_step S A P R discountGamma state_values) new_state_values"

partial_function (option) osv_loop ::
  "nat \<Rightarrow> nat \<Rightarrow> tensor \<Rightarrow> tensor \<Rightarrow> real \<Rightarrow> vec \<Rightarrow> vec \<Rightarrow> nat \<Rightarrow>
     (error + vec \<times> nat) option" where
  "osv_loop S A P R discountGamma state_values new_state_values iteration =
     (case osv_sweep S A P R discountGamma state_values new_state_values of
        Inl e \<Rightarrow> Some (Inl e)
      | Inr new_state_values \<Rightarrow>
          let improvement = improvement_of new_state_values state_values;
              state_values = new_state_values in
          if improvement < 1 / 10 ^ 4 then Some (Inr (state_values, iteration))
          else osv_loop S A P R discountGamma state_values new_state_values (iteration + 1))"

declare osv_loop.simps [code]

definition compute_optimal_state_values ::
  "('e, 'h) env_ops \<Rightarrow> 'e FiniteMDP \<Rightarrow> real \<Rightarrow> (error + vec \<times> nat) option" where
  "compute_optimal_state_values ops self discountGamma =
     (let S = mdp_S self; A = mdp_A self;
          new_state_values = replicate S 0;
          state_values = new_state_values;
          iteration = 1
      in osv_loop S A (nextStateProbability ops (environment self))
           (rewardsTable ops (environment self)) discountGamma
           state_values new_state_values iteration)"

subsection \<open>Action-value iteration: \<open>compute_optimal_action_values\<close>\<close>

text \<open>
  The innermost loop finds the largest entry of a row of \<open>action_values\<close>, starting
  from \<open>best_a = -np.Infinity\<close>, which the model writes \<open>None\<close>.  Were the loop to make
  no pass, the source would go on computing with minus infinity; the model stops there
  with \<open>NotANumber\<close>.  (It cannot happen: the loop runs inside a loop over the same
  \<open>range(A)\<close>.)
\<close>

definition oav_best_step :: "mat \<Rightarrow> nat \<Rightarrow> nat \<Rightarrow> real option \<Rightarrow> error + real option" where
  "oav_best_step action_values nexts nexta best_a =
     (case idx2 action_values nexts nexta of
        Inl e \<Rightarrow> Inl e
      | Inr temp \<Rightarrow>
          Inr (if (case best_a of None \<Rightarrow> True | Some b \<Rightarrow> b < temp) then Some temp
               else best_a))"

definition oav_nexts_step ::
  "nat \<Rightarrow> tensor \<Rightarrow> tensor \<Rightarrow> real \<Rightarrow> mat \<Rightarrow> nat \<Rightarrow> nat \<Rightarrow> nat \<Rightarrow> real \<Rightarrow> error + real" where
  "oav_nexts_step A P R discountGamma action_values s a nexts value =
     (case idx3 P s a nexts of
        Inl e \<Rightarrow> Inl e
      | Inr p \<Rightarrow>
     (case idx3 R s a nexts of
        Inl e \<Rightarrow> Inl e
      | Inr r \<Rightarrow>
     (case for_loop [0..<A] (oav_best_step action_values nexts) None of
        Inl e \<Rightarrow> Inl e
      | Inr best_a \<Rightarrow>
     (case best_a of
        None \<Rightarrow> Inl NotANumber
      | Some b \<Rightarrow> Inr (value + p * (r + discountGamma * b))))))"

definition oav_action_step ::
  "nat \<Rightarrow> nat \<Rightarrow> tensor \<Rightarrow> tensor \<Rightarrow> real \<Rightarrow> mat \<Rightarrow> nat \<Rightarrow> nat \<Rightarrow> mat \<Rightarrow> error + mat" where
  "oav_action_step S A P R discountGamma action_values s a new_action_values =
     (case for_loop [0..<S] (oav_nexts_step A P R discountGamma action_values s a) 0 of
        Inl e \<Rightarrow> Inl e
      | Inr value \<Rightarrow>
     (case idx2 new_action_values s a of
        Inl e \<Rightarrow> Inl e
      | Inr old \<Rightarrow>
          Inr (new_action_values[s := (new_action_values ! s)[a := value]])))"

definition oav_state_step ::
  "nat \<Rightarrow> nat \<Rightarrow> tensor \<Rightarrow> tensor \<Rightarrow> real \<Rightarrow> mat \<Rightarrow> nat \<Rightarrow> mat \<Rightarrow> error + mat" where
  "oav_state_step S A P R discountGamma action_values s new_action_values =
     for_loop [0..<A] (oav_action_step S A P R discountGamma action_values s) new_action_values"

definition oav_sweep ::
  "nat \<Rightarrow> nat \<Rightarrow> tensor \<Rightarrow> tensor \<Rightarrow> real \<Rightarrow> mat \<Rightarrow> mat \<Rightarrow> error + mat" where
  "oav_sweep S A P R discountGamma action_values new_action_values =
     for_loop [0..<S] (oav_state_step S A P R discountGamma action_values) new_action_values"

partial_function (option) oav_loop ::
  "nat \<Rightarrow> nat \<Rightarrow> tensor \<Rightarrow> tensor \<Rightarrow> real \<Rightarrow> mat \<Rightarrow> mat \<Rightarrow> nat \<Rightarrow>
     (error + mat \<times> nat) option" where
  "oav_loop S A P R discountGamma action_values new_action_values iteration =
     (case oav_sweep S A P R discountGamma action_values new_action_values of
        Inl e \<Rightarrow> Some (Inl e)
      | Inr new_action_values \<Rightarrow>
          let improvement = improvement_of2 new_action_values action_values in
          if improvement < 1 / 10 ^ 4 then Some (Inr (new_action_values, iteration))
          else oav_loop S A P R discountGamma new_action_values new_action_values
                 (iteration + 1))"

declare oav_loop.simps [code]

definition compute_optimal_action_values ::
  "('e, 'h) env_ops \<Rightarrow> 'e FiniteMDP \<Rightarrow> real \<Rightarrow> (error + mat \<times> nat) option" where
  "compute_optimal_action_values ops self discountGamma =
     (let S = mdp_S self; A = mdp_A self;
          new_action_values = zeros2 S A;
          action_values = new_action_values;
          iteration = 1
      in oav_loop S A (nextStateProbability ops (environment self))
           (rewardsTable ops (environment self)) discountGamma
           action_values new_action_values iteration)"

text \<open>The two recursions as the specification writes them, and their iterates from
  zero.\<close>

definition q_backup :: "nat \<Rightarrow> tensor \<Rightarrow> tensor \<Rightarrow> real \<Rightarrow> vec \<Rightarrow> nat \<Rightarrow> nat \<Rightarrow> real" where
  "q_backup S P R discountGamma V s a =
     (\<Sum>n<S. P ! s ! a ! n * (R ! s ! a ! n + discountGamma * V ! n))"

definition value_sweep :: "nat \<Rightarrow> nat \<Rightarrow> tensor \<Rightarrow> tensor \<Rightarrow> real \<Rightarrow> vec \<Rightarrow> vec" where
  "value_sweep S A P R discountGamma V =
     map (\<lambda>s. Max ((\<lambda>a. q_backup S P R discountGamma V s a) ` {..<A})) [0..<S]"

definition row_max :: "mat \<Rightarrow> vec" where
  "row_max Q = map (\<lambda>row. Max (set row)) Q"

definition action_sweep :: "nat \<Rightarrow> nat \<Rightarrow> tensor \<Rightarrow> tensor \<Rightarrow> real \<Rightarrow> mat \<Rightarrow> mat" where
  "action_sweep S A P R discountGamma Q =
     map (\<lambda>s. map (\<lambda>a. q_backup S P R discountGamma (row_max Q) s a) [0..<A]) [0..<S]"

definition value_iterate :: "nat \<Rightarrow> nat \<Rightarrow> tensor \<Rightarrow> tensor \<Rightarrow> real \<Rightarrow> nat \<Rightarrow> vec" where
  "value_iterate S A P R discountGamma k =
     (value_sweep S A P R discountGamma ^^ k) (replicate S 0)"

definition action_iterate :: "nat \<Rightarrow> nat \<Rightarrow> tensor \<Rightarrow> tensor \<Rightarrow> real \<Rightarrow> nat \<Rightarrow> mat" where
  "action_iterate S A P R discountGamma k =
     (action_sweep S A P R discountGamma ^^ k) (zeros2 S A)"

definition stops_at2 :: "(mat \<Rightarrow> mat) \<Rightarrow> mat \<Rightarrow> nat \<Rightarrow> bool" where
  "stops_at2 G Q j =
     (improvement_of2 ((G ^^ Suc j) Q) ((G ^^ j) Q) < 1 / 10 ^ 4 \<and>
      (\<forall>i<j. \<not> improvement_of2 ((G ^^ Suc i) Q) ((G ^^ i) Q) < 1 / 10 ^ 4))"

subsection \<open>Concrete inputs for the examples\<close>

text \<open>A two-state, two-action environment: action \<open>a\<close> leads to state \<open>a\<close>, the
  reward tensor holds 1 to 8, and \<open>step\<close> reports the reward 10 whatever the
  transition and never signals the end of the episode.\<close>

definition two_state_ops :: "(nat, unit) env_ops" where
  "two_state_ops =
     \<lparr>action_space = (\<lambda>e. Discrete 2),
      observation_space = (\<lambda>e. Discrete 2),
      nextStateProbability = (\<lambda>e. [[[1, 0], [0, 1]], [[1, 0], [0, 1]]]),
      rewardsTable = (\<lambda>e. [[[1, 2], [3, 4]], [[5, 6], [7, 8]]]),
      reset = (\<lambda>e. 0),
      get_state = (\<lambda>e. e mod 2),
      step = (\<lambda>e a. (a mod 2, a mod 2, 10, False, ()))\<rparr>"

text \<open>The same environment announcing three states, with tables that do not fit.\<close>

definition mismatched_ops :: "(nat, unit) env_ops" where
  "mismatched_ops = two_state_ops\<lparr>observation_space := (\<lambda>e. Discrete 3)\<rparr>"

text \<open>An environment whose observation space is not discrete.\<close>

definition box_ops :: "(nat, unit) env_ops" where
  "box_ops = two_state_ops\<lparr>observation_space := (\<lambda>e. Box)\<rparr>"

definition three_action_mdp :: "unit FiniteMDP" where
  "three_action_mdp =
     \<lparr>version = ''0.1.1'', environment = (), mdp_S = 2, mdp_A = 3,
      currentObservation = 0, currentIteration = 0\<rparr>"

definition two_state_mdp :: "nat FiniteMDP" where
  "two_state_mdp =
     \<lparr>version = ''0.1.1'', environment = 0, mdp_S = 2, mdp_A = 2,
      currentObservation = 0, currentIteration = 0\<rparr>"

text \<open>Draws that never explore and always pick the first candidate.\<close>

definition first_draws :: "nat \<Rightarrow> real \<times> nat" where
  "first_draws i = (1 / 2, 0)"

text \<open>
  A sampler that refuses what \<open>random.choices\<close> refuses (weights that are not a
  sequence, a number of weights other than the size of the population, an empty
  population, a running total that does not end in a positive finite number) and
  otherwise returns the action at the position its draw selects.
\<close>

definition choose_by_draw :: "nat list \<Rightarrow> ndarray \<Rightarrow> nat \<Rightarrow> error + nat" where
  "choose_by_draw population weights d =
     (case weights of
        Array0 w \<Rightarrow> Inl TypeError
      | Array1 ws \<Rightarrow>
          if length ws \<noteq> length population then Inl ValueError
          else if population = [] then Inl IndexError
          else (case sum_from (hd ws) (tl ws) of
                  Finite sumw \<Rightarrow>
                    if sumw \<le> 0 then Inl ValueError
                    else Inr (population ! (d mod length population))
                | _ \<Rightarrow> Inl ValueError))"

text \<open>One state and two actions, both with the reward \<open>9e-5\<close>.\<close>

definition flat_ops :: "(nat, unit) env_ops" where
  "flat_ops =
     \<lparr>action_space = (\<lambda>e. Discrete 2),
      observation_space = (\<lambda>e. Discrete 1),
      nextStateProbability = (\<lambda>e. [[[1], [1]]]),
      rewardsTable = (\<lambda>e. [[[9 / 10 ^ 5], [9 / 10 ^ 5]]]),
      reset = (\<lambda>e. 0),
      get_state = (\<lambda>e. 0),
      step = (\<lambda>e a. (0, 0, 9 / 10 ^ 5, False, ()))\<rparr>"

definition flat_mdp :: "nat FiniteMDP" where
  "flat_mdp =
     \<lparr>version = ''0.1.1'', environment = 0, mdp_S = 1, mdp_A = 2,
      currentObservation = 0, currentIteration = 0\<rparr>"

section \<open>Basic facts\<close>

lemma fold_max_Max: "fold max ys (x::real) = Max (set (x # ys))"
proof (induction ys arbitrary: x)
  case Nil
  then show ?case by simp
next
  case (Cons y ys)
  have "fold max (y # ys) x = Max (set (max y x # ys))"
    using Cons.IH [of "max y x"] by simp
  also have "\<dots> = Max (set (x # y # ys))"
    by (cases ys) (simp_all add: max.commute max.left_commute max.assoc)
  finally show ?case .
qed

lemma fold_min_Min: "fold min ys (x::real) = Min (set (x # ys))"
proof (induction ys arbitrary: x)
  case Nil
  then show ?case by simp
next
  case (Cons y ys)
  have "fold min (y # ys) x = Min (set (min y x # ys))"
    using Cons.IH [of "min y x"] by simp
  also have "\<dots> = Min (set (x # y # ys))"
    by (cases ys) (simp_all add: min.commute min.left_commute min.assoc)
  finally show ?case .
qed

lemma np_max_Inr: "xs \<noteq> [] \<Longrightarrow> np_max xs = Inr (Max (set xs))"
  by (cases xs) (simp_all add: np_max_def fold_max_Max del: set_simps)

lemma np_where_eq_set: "row \<noteq> [] \<Longrightarrow> set (np_where_eq row (Max (set row))) = argmax_set row"
  by (auto simp: np_where_eq_def argmax_set_def)

lemma np_where_eq_length:
  "row \<noteq> [] \<Longrightarrow> length (np_where_eq row (Max (set row))) = card (argmax_set row)"
proof -
  assume "row \<noteq> []"
  have "distinct (np_where_eq row (Max (set row)))"
    by (simp add: np_where_eq_def)
  then have "length (np_where_eq row (Max (set row))) = card (set (np_where_eq row (Max (set row))))"
    by (simp add: distinct_card)
  then show ?thesis
    using \<open>row \<noteq> []\<close> by (simp add: np_where_eq_set)
qed

lemma argmax_set_nonempty: "row \<noteq> [] \<Longrightarrow> argmax_set row \<noteq> {}"
proof -
  assume "row \<noteq> []"
  then have "Max (set row) \<in> set row"
    by (intro Max_in) simp_all
  then obtain a where "a < length row" "row ! a = Max (set row)"
    by (auto simp: in_set_conv_nth)
  then show ?thesis
    by (auto simp: argmax_set_def)
qed

lemma argmax_set_finite: "finite (argmax_set row)"
  by (simp add: argmax_set_def)

lemma for_loop_append:
  "for_loop (xs @ ys) body st =
     (case for_loop xs body st of Inl e \<Rightarrow> Inl e | Inr st' \<Rightarrow> for_loop ys body st')"
  by (induction xs arbitrary: st) (auto split: sum.splits)

lemma for_loop_upt_Suc:
  "for_loop [0..<Suc n] body st =
     (case for_loop [0..<n] body st of Inl e \<Rightarrow> Inl e | Inr st' \<Rightarrow> body n st')"
  by (simp add: for_loop_append split: sum.splits)

lemma assign_indices_length: "length (assign_indices row idxs v) = length row"
  unfolding assign_indices_def by (induction idxs arbitrary: row) simp_all

lemma assign_indices_nth:
  "a < length row \<Longrightarrow> assign_indices row idxs v ! a = (if a \<in> set idxs then v else row ! a)"
  unfolding assign_indices_def
proof (induction idxs arbitrary: row)
  case Nil
  then show ?case by simp
next
  case (Cons i idxs)
  have "length (row[i := v]) = length row" by simp
  with Cons.prems have "a < length (row[i := v])" by simp
  from Cons.IH [OF this] show ?case
    using Cons.prems by (auto simp: nth_list_update)
qed

lemma greedy_row_length: "length (greedy_row row) = length row"
  by (simp add: greedy_row_def)

lemma assign_greedy:
  assumes "row \<noteq> []"
  shows "assign_indices (replicate (length row) 0) (np_where_eq row (Max (set row)))
           (1 / real (length (np_where_eq row (Max (set row))))) = greedy_row row"
proof (rule nth_equalityI)
  show "length (assign_indices (replicate (length row) 0) (np_where_eq row (Max (set row)))
           (1 / real (length (np_where_eq row (Max (set row)))))) = length (greedy_row row)"
    by (simp add: assign_indices_length greedy_row_length)
next
  fix a
  assume "a < length (assign_indices (replicate (length row) 0) (np_where_eq row (Max (set row)))
           (1 / real (length (np_where_eq row (Max (set row))))))"
  then have a: "a < length row"
    by (simp add: assign_indices_length)
  then show "assign_indices (replicate (length row) 0) (np_where_eq row (Max (set row)))
           (1 / real (length (np_where_eq row (Max (set row))))) ! a = greedy_row row ! a"
    using assms
    by (simp add: assign_indices_nth np_where_eq_set np_where_eq_length greedy_row_def)
qed

lemma policy_row_step_greedy:
  assumes "s < length action_values" "action_values ! s \<noteq> []"
    and "s < length policy" "policy ! s = replicate (length (action_values ! s)) 0"
  shows "policy_row_step action_values s policy = Inr (policy[s := greedy_row (action_values ! s)])"
proof -
  have "card (argmax_set (action_values ! s)) \<noteq> 0"
    using argmax_set_nonempty [OF assms(2)] argmax_set_finite by simp
  then have "length (np_where_eq (action_values ! s) (Max (set (action_values ! s)))) \<noteq> 0"
    using assms(2) by (simp add: np_where_eq_length)
  then show ?thesis
    using assms by (simp add: policy_row_step_def idx1_def np_max_Inr Let_def assign_greedy)
qed

lemma convert_loop:
  assumes "is_matrix S A action_values" "0 < A" "n \<le> S"
  shows "for_loop [0..<n] (policy_row_step action_values) (zeros2 S A) =
           Inr (map greedy_row (take n action_values) @ replicate (S - n) (replicate A 0))"
  using assms(3)
proof (induction n)
  case 0
  then show ?case by (simp add: zeros2_def)
next
  case (Suc n)
  then have n: "n < S" by simp
  have len: "length action_values = S" and row: "length (action_values ! n) = A"
    using assms(1) n by (simp_all add: is_matrix_def list_all_length)
  let ?p = "map greedy_row (take n action_values) @ replicate (S - n) (replicate A 0)"
  have lp: "length ?p = S" using n len by simp
  have pn: "?p ! n = replicate A 0"
    using n len by (simp add: nth_append)
  have step: "policy_row_step action_values n ?p = Inr (?p[n := greedy_row (action_values ! n)])"
    using n len row assms(2) lp pn by (intro policy_row_step_greedy) auto
  have upd: "?p[n := greedy_row (action_values ! n)] =
      map greedy_row (take (Suc n) action_values) @ replicate (S - Suc n) (replicate A 0)"
  proof -
    have "S - n = Suc (S - Suc n)" using n by simp
    then have "replicate (S - n) (replicate A (0::real)) = replicate A 0 # replicate (S - Suc n) (replicate A 0)"
      by simp
    then show ?thesis
      using n len by (simp add: list_update_append take_Suc_conv_app_nth)
  qed
  show ?case
    using Suc n step upd by (simp add: for_loop_upt_Suc del: upt_Suc)
qed

lemma convert_greedy:
  assumes "is_matrix S A action_values" "0 < A"
  shows "convert_action_values_into_policy action_values = Inr (map greedy_row action_values)"
proof (cases action_values)
  case Nil
  then show ?thesis
    by (simp add: convert_action_values_into_policy_def shape2_def zeros2_def)
next
  case (Cons row rows)
  have len: "length action_values = S"
    using assms(1) by (simp add: is_matrix_def)
  have "shape2 action_values = (S, A)"
    using assms(1) Cons by (auto simp: shape2_def is_matrix_def)
  then show ?thesis
    using convert_loop [OF assms order_refl] len
    by (simp add: convert_action_values_into_policy_def)
qed

lemma greedy_row_sum:
  assumes "row \<noteq> []"
  shows "sum_list (greedy_row row) = 1"
proof -
  let ?M = "argmax_set row"
  have sub: "?M \<subseteq> {0..<length row}" by (auto simp: argmax_set_def)
  have card: "card ?M \<noteq> 0"
    using argmax_set_nonempty [OF assms] argmax_set_finite by simp
  have "sum_list (greedy_row row) =
      (\<Sum>a = 0..<length row. if a \<in> ?M then 1 / real (card ?M) else 0)"
    by (simp add: greedy_row_def interv_sum_list_conv_sum_set_nat)
  also have "\<dots> = (\<Sum>a\<in>?M. 1 / real (card ?M))"
    using sub by (simp add: sum.If_cases Int_absorb1)
  also have "\<dots> = 1"
    using card by simp
  finally show ?thesis .
qed

section \<open>Policy extraction\<close>

text \<open>
  Claim C4.  For every \<open>S\<close>-by-\<open>A\<close> matrix of action values (with at least one
  action), \<open>convert_action_values_into_policy\<close> returns an \<open>S\<close>-by-\<open>A\<close> policy
  in which, for every state, each action attaining the row maximum has probability
  \<open>1/k\<close>, with \<open>k\<close> the number of maximising actions, and every other action has
  probability 0; every row sums to 1, and a row with a single maximiser is one-hot.
  (A row without entries makes \<open>max\<close> raise \<open>ValueError\<close>.)
\<close>

theorem convert_action_values_into_policy_uniform_over_maximisers:
  assumes "is_matrix S A action_values" "0 < A"
  shows "\<exists>policy. convert_action_values_into_policy action_values = Inr policy \<and>
           is_matrix S A policy \<and>
           (\<forall>s<S. \<forall>a<A. policy ! s ! a =
              (if action_values ! s ! a = Max (set (action_values ! s))
               then 1 / real (card {a'. a' < A \<and> action_values ! s ! a' = Max (set (action_values ! s))})
               else 0)) \<and>
           (\<forall>s<S. sum_list (policy ! s) = 1) \<and>
           (\<forall>s<S. \<forall>a<A.
              {a'. a' < A \<and> action_values ! s ! a' = Max (set (action_values ! s))} = {a} \<longrightarrow>
              policy ! s = (replicate A 0)[a := 1])"
proof -
  let ?policy = "map greedy_row action_values"
  have len: "length action_values = S"
    and rows: "\<And>s. s < S \<Longrightarrow> length (action_values ! s) = A"
    using assms(1) by (simp_all add: is_matrix_def list_all_length)
  have arg: "\<And>s. s < S \<Longrightarrow>
      argmax_set (action_values ! s) = {a'. a' < A \<and> action_values ! s ! a' = Max (set (action_values ! s))}"
    using rows by (simp add: argmax_set_def)
  have ret: "convert_action_values_into_policy action_values = Inr ?policy"
    using assms by (rule convert_greedy)
  have shape: "is_matrix S A ?policy"
    using assms(1) by (simp add: is_matrix_def list_all_length greedy_row_length)
  have entry: "\<forall>s<S. \<forall>a<A. ?policy ! s ! a =
              (if action_values ! s ! a = Max (set (action_values ! s))
               then 1 / real (card {a'. a' < A \<and> action_values ! s ! a' = Max (set (action_values ! s))})
               else 0)"
  proof (intro allI impI)
    fix s a
    assume s: "s < S" and a: "a < A"
    have "?policy ! s ! a = greedy_row (action_values ! s) ! a"
      using s len by simp
    also have "\<dots> = (if a \<in> argmax_set (action_values ! s)
        then 1 / real (card (argmax_set (action_values ! s))) else 0)"
      using a rows [OF s] by (simp add: greedy_row_def)
    finally show "?policy ! s ! a =
              (if action_values ! s ! a = Max (set (action_values ! s))
               then 1 / real (card {a'. a' < A \<and> action_values ! s ! a' = Max (set (action_values ! s))})
               else 0)"
      using a by (simp add: arg [OF s])
  qed
  have sums: "\<forall>s<S. sum_list (?policy ! s) = 1"
  proof (intro allI impI)
    fix s
    assume s: "s < S"
    then have "action_values ! s \<noteq> []"
      using rows [OF s] assms(2) by auto
    then show "sum_list (?policy ! s) = 1"
      using s len by (simp add: greedy_row_sum)
  qed
  have onehot: "\<forall>s<S. \<forall>a<A.
      {a'. a' < A \<and> action_values ! s ! a' = Max (set (action_values ! s))} = {a} \<longrightarrow>
      ?policy ! s = (replicate A 0)[a := 1]"
  proof (intro allI impI)
    fix s a
    assume s: "s < S" and a: "a < A"
      and one: "{a'. a' < A \<and> action_values ! s ! a' = Max (set (action_values ! s))} = {a}"
    have m: "argmax_set (action_values ! s) = {a}"
      using one by (simp add: arg [OF s])
    show "?policy ! s = (replicate A 0)[a := 1]"
    proof (rule nth_equalityI)
      show "length (?policy ! s) = length ((replicate A (0::real))[a := 1])"
        using s len rows [OF s] by (simp add: greedy_row_length)
    next
      fix i
      assume "i < length (?policy ! s)"
      then have i: "i < A"
        using s len rows [OF s] by (simp add: greedy_row_length)
      show "?policy ! s ! i = (replicate A 0)[a := 1] ! i"
        using i a s len rows [OF s] m by (auto simp: greedy_row_def nth_list_update)
    qed
  qed
  from ret shape entry sums onehot show ?thesis
    by blast
qed

theorem convert_action_values_into_policy_witness:
  "is_matrix 2 3 [[1, 3, 3], [2, 0, 1]] \<and> (0::nat) < 3 \<and>
   (\<exists>policy. convert_action_values_into_policy [[1, 3, 3], [2, 0, 1]] = Inr policy \<and>
      policy ! 0 ! 0 = 0 \<and> policy ! 1 ! 1 = 0 \<and> sum_list (policy ! 0) = 1 \<and> sum_list (policy ! 1) = 1)"
proof -
  have h: "is_matrix 2 3 [[1, 3, 3], [2, 0, 1]]"
    by (simp add: is_matrix_def)
  have "\<exists>policy. convert_action_values_into_policy [[1, 3, 3], [2, 0, 1]] = Inr policy \<and>
      policy ! 0 ! 0 = 0 \<and> policy ! 1 ! 1 = 0 \<and> sum_list (policy ! 0) = 1 \<and> sum_list (policy ! 1) = 1"
    using convert_action_values_into_policy_uniform_over_maximisers [OF h] by fastforce
  with h show ?thesis by simp
qed

section \<open>Epsilon-greedy selection\<close>

lemma argmax_actions_eq:
  "row \<noteq> [] \<Longrightarrow> argmax_actions row = np_where_eq row (Max (set row))"
  by (simp add: argmax_actions_def np_max_Inr)

lemma argmax_actions_set: "row \<noteq> [] \<Longrightarrow> set (argmax_actions row) = argmax_set row"
  by (simp add: argmax_actions_eq np_where_eq_set)

lemma argmax_actions_nonempty: "row \<noteq> [] \<Longrightarrow> argmax_actions row \<noteq> []"
  using argmax_actions_set [of row] argmax_set_nonempty [of row] by auto

lemma random_choice_range:
  assumes ne: "xs \<noteq> []"
  shows "{r::error + 'a. \<exists>k. r = random_choice xs k} = Inr ` set xs"
proof -
  have "random_choice xs k \<in> Inr ` set xs" for k
  proof -
    have "xs ! (k mod length xs) \<in> set xs"
      using ne by simp
    then show ?thesis
      using ne by (simp add: random_choice_def)
  qed
  moreover have "\<exists>k. (Inr x :: error + 'a) = random_choice xs k" if "x \<in> set xs" for x
  proof -
    from that obtain i where i: "i < length xs" "x = xs ! i"
      by (auto simp: in_set_conv_nth)
    then have "(Inr x :: error + 'a) = random_choice xs i"
      using ne by (simp add: random_choice_def)
    then show ?thesis by blast
  qed
  ultimately show ?thesis by auto
qed

lemma chooseAction_greedy:
  "u \<ge> 0 \<Longrightarrow> chooseAction self state Q 0 (u, k) =
     (case idx1 Q state of Inl e \<Rightarrow> Inl e | Inr values \<Rightarrow> random_choice (argmax_actions values) k)"
  by (simp add: chooseAction_def binomial1_def)

lemma chooseAction_explore:
  "u < 1 \<Longrightarrow> chooseAction self state Q 1 (u, k) = random_choice [0..<mdp_A self] k"
  by (simp add: chooseAction_def binomial1_def)

text \<open>
  Claim C6.  For every state and action-value table, \<open>chooseAction\<close> with
  \<open>explorationProbEpsilon = 0\<close> can return exactly the actions attaining the maximum of
  the state's row (for a state with a non-empty row in the table), and with
  \<open>explorationProbEpsilon = 1\<close> it can return exactly the actions below \<open>self.A\<close>,
  whatever the table holds.
\<close>

theorem chooseAction_epsilon_zero_and_one:
  "(state < length stateActionValues \<and> stateActionValues ! state \<noteq> [] \<longrightarrow>
      chooseAction_outcomes self state stateActionValues 0 =
        Inr ` {a. a < length (stateActionValues ! state) \<and>
                 stateActionValues ! state ! a = Max (set (stateActionValues ! state))}) \<and>
   (0 < mdp_A self \<longrightarrow>
      chooseAction_outcomes self state stateActionValues 1 = Inr ` {a. a < mdp_A self})"
proof (intro conjI impI)
  assume h: "state < length stateActionValues \<and> stateActionValues ! state \<noteq> []"
  let ?row = "stateActionValues ! state"
  have "chooseAction_outcomes self state stateActionValues 0 =
      {r. \<exists>k. r = random_choice (argmax_actions ?row) k}"
  proof (intro set_eqI iffI)
    fix r
    assume "r \<in> chooseAction_outcomes self state stateActionValues 0"
    then obtain u k where "0 \<le> u" "r = chooseAction self state stateActionValues 0 (u, k)"
      unfolding chooseAction_outcomes_def by blast
    then have "r = random_choice (argmax_actions ?row) k"
      using h by (simp add: chooseAction_greedy idx1_def)
    then show "r \<in> {r. \<exists>k. r = random_choice (argmax_actions ?row) k}" by blast
  next
    fix r
    assume "r \<in> {r. \<exists>k. r = random_choice (argmax_actions ?row) k}"
    then obtain k where "r = random_choice (argmax_actions ?row) k" by blast
    then have "r = chooseAction self state stateActionValues 0 (0, k)"
      using h by (simp add: chooseAction_greedy idx1_def)
    then show "r \<in> chooseAction_outcomes self state stateActionValues 0"
      unfolding chooseAction_outcomes_def by force
  qed
  also have "\<dots> = Inr ` set (argmax_actions ?row)"
    using h by (intro random_choice_range argmax_actions_nonempty) simp
  also have "\<dots> = Inr ` argmax_set ?row"
    using h by (simp add: argmax_actions_set)
  finally show "chooseAction_outcomes self state stateActionValues 0 =
        Inr ` {a. a < length ?row \<and> ?row ! a = Max (set ?row)}"
    by (simp add: argmax_set_def)
next
  assume A: "0 < mdp_A self"
  have "chooseAction_outcomes self state stateActionValues 1 =
      {r. \<exists>k. r = random_choice [0..<mdp_A self] k}"
  proof (intro set_eqI iffI)
    fix r
    assume "r \<in> chooseAction_outcomes self state stateActionValues 1"
    then obtain u k where "u < 1" "r = chooseAction self state stateActionValues 1 (u, k)"
      unfolding chooseAction_outcomes_def by blast
    then have "r = random_choice [0..<mdp_A self] k"
      by (simp add: chooseAction_explore)
    then show "r \<in> {r. \<exists>k. r = random_choice [0..<mdp_A self] k}" by blast
  next
    fix r
    assume "r \<in> {r. \<exists>k. r = random_choice [0..<mdp_A self] k}"
    then obtain k where "r = random_choice [0..<mdp_A self] k" by blast
    then have "r = chooseAction self state stateActionValues 1 (0, k)"
      by (simp add: chooseAction_explore)
    then show "r \<in> chooseAction_outcomes self state stateActionValues 1"
      unfolding chooseAction_outcomes_def by force
  qed
  also have "\<dots> = Inr ` set [0..<mdp_A self]"
    using A by (intro random_choice_range) simp
  finally show "chooseAction_outcomes self state stateActionValues 1 = Inr ` {a. a < mdp_A self}"
    by (simp add: atLeast0LessThan lessThan_def)
qed

theorem chooseAction_epsilon_zero_and_one_witness:
  "(1::nat) < length [[0, 0, 0], [1, 5, 5::real]] \<and> [[0, 0, 0], [1, 5, 5::real]] ! 1 \<noteq> [] \<and>
   0 < mdp_A three_action_mdp \<and>
   Inr 2 \<in> chooseAction_outcomes three_action_mdp 1 [[0, 0, 0], [1, 5, 5]] 0 \<and>
   Inr 0 \<notin> chooseAction_outcomes three_action_mdp 1 [[0, 0, 0], [1, 5, 5]] 0 \<and>
   Inr 0 \<in> chooseAction_outcomes three_action_mdp 1 [[0, 0, 0], [1, 5, 5]] 1"
  using chooseAction_epsilon_zero_and_one [of 1 "[[0, 0, 0], [1, 5, 5]]" three_action_mdp]
  by (auto simp: three_action_mdp_def)

lemma chooseAction_in_range:
  assumes "is_matrix S A stateActionValues" "0 < A" "state < S" "mdp_A self = A"
    and "0 \<le> explorationProbEpsilon" "explorationProbEpsilon \<le> 1"
  shows "argmax_actions (stateActionValues ! state) \<noteq> [] \<and>
         (\<exists>a. chooseAction self state stateActionValues explorationProbEpsilon (u, k) = Inr a \<and> a < A)"
proof -
  let ?row = "stateActionValues ! state"
  have len: "length stateActionValues = S" and row: "length ?row = A"
    using assms(1,3) by (simp_all add: is_matrix_def list_all_length)
  have ne: "?row \<noteq> []" using row assms(2) by auto
  have cand: "argmax_actions ?row \<noteq> []"
    using ne by (rule argmax_actions_nonempty)
  have sub: "set (argmax_actions ?row) \<subseteq> {a. a < A}"
    using ne row by (auto simp: argmax_actions_set argmax_set_def)
  show ?thesis
  proof (cases "u < explorationProbEpsilon")
    case True
    then have "chooseAction self state stateActionValues explorationProbEpsilon (u, k) =
        Inr ([0..<A] ! (k mod A))"
      using assms by (simp add: chooseAction_def binomial1_def random_choice_def)
    moreover have "[0..<A] ! (k mod A) < A"
      using assms(2) by simp
    ultimately show ?thesis using cand by blast
  next
    case False
    then have "chooseAction self state stateActionValues explorationProbEpsilon (u, k) =
        Inr (argmax_actions ?row ! (k mod length (argmax_actions ?row)))"
      using assms len cand by (simp add: chooseAction_def binomial1_def random_choice_def idx1_def)
    moreover have "argmax_actions ?row ! (k mod length (argmax_actions ?row)) \<in> set (argmax_actions ?row)"
      using cand by simp
    ultimately show ?thesis using cand sub by blast
  qed
qed

text \<open>
  Claim C9.  For every state below \<open>S\<close>, every \<open>S\<close>-by-\<open>A\<close> table with \<open>A \<ge> 1\<close> and
  every \<open>explorationProbEpsilon\<close> in \<open>[0, 1]\<close>, \<open>chooseAction\<close> returns an action below
  \<open>A\<close>, whatever the draws; the list of maximising actions is never empty.
\<close>

theorem chooseAction_returns_action:
  assumes "is_matrix S A stateActionValues" "0 < A" "state < S" "mdp_A self = A"
    and "0 \<le> explorationProbEpsilon" "explorationProbEpsilon \<le> 1"
  shows "argmax_actions (stateActionValues ! state) \<noteq> [] \<and>
         (\<exists>a. chooseAction self state stateActionValues explorationProbEpsilon (u, k) = Inr a \<and> a < A)"
  using assms by (rule chooseAction_in_range)

theorem chooseAction_returns_action_witness:
  "is_matrix 2 3 [[0, 0, 0], [1, 5, 5]] \<and> (0::nat) < 3 \<and> (1::nat) < 2 \<and>
   mdp_A three_action_mdp = 3 \<and> (0::real) \<le> 1 / 2 \<and> (1::real) / 2 \<le> 1 \<and>
   argmax_actions ([[0, 0, 0], [1, 5, 5]] ! 1) \<noteq> [] \<and>
   (\<exists>a. chooseAction three_action_mdp 1 [[0, 0, 0], [1, 5, 5]] (1 / 2) (3 / 4, 7) = Inr a \<and> a < 3)"
proof -
  have h1: "is_matrix 2 3 [[0, 0, 0], [1, 5, 5]]"
    by (simp add: is_matrix_def)
  have h2: "mdp_A three_action_mdp = 3"
    by (simp add: three_action_mdp_def)
  have "argmax_actions ([[0, 0, 0], [1, 5, 5]] ! 1) \<noteq> [] \<and>
   (\<exists>a. chooseAction three_action_mdp 1 [[0, 0, 0], [1, 5, 5]] (1 / 2) (3 / 4, 7) = Inr a \<and> a < 3)"
    using chooseAction_returns_action [OF h1 _ _ h2, of 1 "1 / 2" "3 / 4" 7] by simp
  with h1 h2 show ?thesis by simp
qed

section \<open>Construction\<close>

text \<open>
  The claim C8 as stated asks the constructor to fail when the sizes of the spaces do not
  fit the tables.  It does not: an environment announcing three states with tables for
  two is accepted.
\<close>

theorem FiniteMDP_init_accepts_mismatched_tables:
  "observation_space mismatched_ops 0 = Discrete 3 \<and>
   action_space mismatched_ops 0 = Discrete 2 \<and>
   \<not> is_tensor 3 2 3 (rewardsTable mismatched_ops 0) \<and>
   \<not> is_tensor 3 2 3 (nextStateProbability mismatched_ops 0) \<and>
   FiniteMDP_init mismatched_ops 0 =
     Inr \<lparr>version = ''0.1.1'', environment = 0, mdp_S = 3, mdp_A = 2,
          currentObservation = 0, currentIteration = 0\<rparr>"
  by (simp add: mismatched_ops_def two_state_ops_def FiniteMDP_init_def is_tensor_def)

text \<open>
  Claim C8, as the code has it.  Constructing a \<open>FiniteMDP\<close> raises
  \<open>AssertionError\<close> exactly when the action space or the observation space of the
  environment is not \<open>Discrete\<close>; for discrete spaces it succeeds, takes \<open>S\<close> and \<open>A\<close>
  from the spaces and resets the environment; the tables of the environment play no part
  in it.
\<close>

theorem FiniteMDP_init_checks_spaces_only:
  "(FiniteMDP_init ops env = Inl AssertionError \<longleftrightarrow>
      \<not> (is_Discrete (action_space ops env) \<and> is_Discrete (observation_space ops env))) \<and>
   (\<forall>nA nS. action_space ops env = Discrete nA \<and> observation_space ops env = Discrete nS \<longrightarrow>
      FiniteMDP_init ops env =
        Inr \<lparr>version = ''0.1.1'', environment = reset ops env, mdp_S = nS, mdp_A = nA,
             currentObservation = 0, currentIteration = 0\<rparr>) \<and>
   FiniteMDP_init (ops\<lparr>nextStateProbability := P', rewardsTable := R'\<rparr>) env =
     FiniteMDP_init ops env"
  by (cases "action_space ops env"; cases "observation_space ops env")
     (simp_all add: FiniteMDP_init_def)

theorem FiniteMDP_init_checks_spaces_only_witness:
  "action_space two_state_ops 5 = Discrete 2 \<and> observation_space two_state_ops 5 = Discrete 2 \<and>
   FiniteMDP_init two_state_ops 5 =
     Inr \<lparr>version = ''0.1.1'', environment = 0, mdp_S = 2, mdp_A = 2,
          currentObservation = 0, currentIteration = 0\<rparr> \<and>
   \<not> is_Discrete (observation_space box_ops 5) \<and>
   FiniteMDP_init box_ops 5 = Inl AssertionError"
proof -
  have a: "action_space two_state_ops 5 = Discrete 2 \<and> observation_space two_state_ops 5 = Discrete 2"
    by (simp add: two_state_ops_def)
  have r: "reset two_state_ops 5 = 0"
    by (simp add: two_state_ops_def)
  have b: "\<not> is_Discrete (observation_space box_ops 5)"
    by (simp add: box_ops_def)
  have "FiniteMDP_init two_state_ops 5 =
     Inr \<lparr>version = ''0.1.1'', environment = 0, mdp_S = 2, mdp_A = 2,
          currentObservation = 0, currentIteration = 0\<rparr>"
    using FiniteMDP_init_checks_spaces_only [of two_state_ops 5] a r by simp
  moreover have "FiniteMDP_init box_ops 5 = Inl AssertionError"
    using FiniteMDP_init_checks_spaces_only [of box_ops 5] b by simp
  ultimately show ?thesis using a b by simp
qed

section \<open>Q-learning\<close>

lemma idx1_Inr: "idx1 xs i = Inr x \<Longrightarrow> i < length xs \<and> x = xs ! i"
  by (simp add: idx1_def split: if_splits)

lemma idx2_Inr: "idx2 m i j = Inr x \<Longrightarrow> i < length m \<and> j < length (m ! i) \<and> x = m ! i ! j"
  by (auto simp: idx2_def split: sum.splits dest!: idx1_Inr)

lemma np_max_Inr_iff: "np_max xs = Inr m \<Longrightarrow> xs \<noteq> [] \<and> m = Max (set xs)"
  by (cases xs) (auto simp: np_max_def fold_max_Max simp del: set_simps)

lemma q_learning_step_reported_reward:
  "q_learning_step (with_reported_reward f ops) stepSizeAlpha explorationProbEpsilon discountGamma
       rnd numIterations st =
   q_learning_step ops stepSizeAlpha explorationProbEpsilon discountGamma rnd numIterations st"
  by (simp add: q_learning_step_def with_reported_reward_def Let_def split: sum.splits prod.splits)

lemma for_loop_invariant:
  assumes "for_loop xs body st = Inr st'"
    and "\<And>x s s'. body x s = Inr s' \<Longrightarrow> I s \<Longrightarrow> I s'"
    and "I st"
  shows "I st'"
  using assms(1,3)
proof (induction xs arbitrary: st)
  case Nil
  then show ?case by simp
next
  case (Cons x xs)
  from Cons.prems(1) obtain s1 where b: "body x st = Inr s1" and r: "for_loop xs body s1 = Inr st'"
    by (auto split: sum.splits)
  from assms(2) [OF b Cons.prems(2)] have "I s1" .
  with Cons.IH r show ?case by blast
qed

lemma for_loop_total:
  assumes "\<And>x s. x \<in> set xs \<Longrightarrow> I s \<Longrightarrow> \<exists>s'. body x s = Inr s' \<and> I s'"
    and "I st"
  shows "\<exists>st'. for_loop xs body st = Inr st' \<and> I st'"
  using assms
proof (induction xs arbitrary: st)
  case Nil
  then show ?case by simp
next
  case (Cons x xs)
  from Cons.prems(1) [of x st] Cons.prems(2)
  obtain s1 where b: "body x st = Inr s1" and i: "I s1" by auto
  have "\<exists>st'. for_loop xs body s1 = Inr st' \<and> I st'"
    using Cons.prems(1) i by (intro Cons.IH) auto
  then show ?case using b by simp
qed

lemma idx3_tensor:
  assumes "is_tensor S A S' t" "s < S" "a < A" "n < S'"
  shows "idx3 t s a n = Inr (t ! s ! a ! n)"
  using assms by (simp add: is_tensor_def is_matrix_def list_all_length idx3_def idx2_def idx1_def)

lemma idx2_matrix:
  assumes "is_matrix S A m" "s < S" "a < A"
  shows "idx2 m s a = Inr (m ! s ! a)"
  using assms by (simp add: is_matrix_def list_all_length idx2_def idx1_def)

lemma is_matrix_update:
  assumes "is_matrix S A m" "s < S"
  shows "is_matrix S A (m[s := (m ! s)[a := v]])"
  using assms by (simp add: is_matrix_def list_all_length nth_list_update)

lemma q_learning_step_total:
  assumes Q: "is_matrix S A (q_stateActionValues st)" and A: "0 < A"
    and s: "q_currentState st < S" and sA: "mdp_A (q_self st) = A"
    and eps: "0 \<le> ep" "ep \<le> 1"
    and env: "\<forall>e. get_state ops e < S" "\<forall>e. is_tensor S A S (rewardsTable ops e)"
  shows "\<exists>st'. q_learning_step ops al ep ga rnd i st = Inr st' \<and>
           is_matrix S A (q_stateActionValues st') \<and> q_currentState st' < S \<and>
           mdp_A (q_self st') = A"
proof -
  let ?Q = "q_stateActionValues st" and ?s = "q_currentState st"
  obtain u k where d: "rnd i = (u, k)" by (cases "rnd i")
  from chooseAction_in_range [OF Q A s sA eps, of u k] obtain a where
    a: "chooseAction (q_self st) ?s ?Q ep (rnd i) = Inr a" "a < A"
    by (auto simp: d)
  obtain e' ob rep g h where stp: "step ops (environment (q_self st)) a = (e', ob, rep, g, h)"
    by (cases "step ops (environment (q_self st)) a") auto
  have n: "get_state ops e' < S" using env(1) by simp
  have r: "idx3 (rewardsTable ops e') ?s a (get_state ops e') = Inr (rewardsTable ops e' ! ?s ! a ! get_state ops e')"
    using env(2) s a(2) n by (intro idx3_tensor) auto
  have q: "idx2 ?Q ?s a = Inr (?Q ! ?s ! a)"
    using Q s a(2) by (rule idx2_matrix)
  have len: "length ?Q = S" and rowlen: "length (?Q ! get_state ops e') = A"
    using Q n by (simp_all add: is_matrix_def list_all_length)
  have row: "idx1 ?Q (get_state ops e') = Inr (?Q ! get_state ops e')"
    using n len by (simp add: idx1_def)
  have "?Q ! get_state ops e' \<noteq> []" using rowlen A by auto
  then have best: "np_max (?Q ! get_state ops e') = Inr (Max (set (?Q ! get_state ops e')))"
    by (rule np_max_Inr)
  show ?thesis
    using a(1) stp r q row best n sA is_matrix_update [OF Q s]
    by (simp add: q_learning_step_def Let_def)
qed

lemma q_episode_total:
  fixes ops :: "('e, 'h) env_ops"
  assumes Q: "is_matrix S A Q" and A: "0 < A" and sA: "mdp_A self = A"
    and eps: "0 \<le> ep" "ep \<le> 1"
    and env: "\<forall>e. get_state ops e < S" "\<forall>e. is_tensor S A S (rewardsTable ops e)"
  shows "\<exists>st. q_episode ops self Q n al ep ga rnd = Inr st"
proof -
  let ?I = "\<lambda>st::'e q_state. is_matrix S A (q_stateActionValues st) \<and> q_currentState st < S \<and>
           mdp_A (q_self st) = A"
  let ?st0 = "\<lparr>q_self = self, q_stateActionValues = Q,
        q_currentState = get_state ops (environment self), q_rewards = 0, q_lookups = []\<rparr>"
  have "\<exists>st'. for_loop [0..<n] (q_learning_step ops al ep ga rnd) ?st0 = Inr st' \<and> ?I st'"
  proof (rule for_loop_total [where I = ?I])
    show "?I ?st0" using Q sA env(1) by simp
  next
    fix x s
    assume "?I s"
    then show "\<exists>s'. q_learning_step ops al ep ga rnd x s = Inr s' \<and> ?I s'"
      using q_learning_step_total [OF _ A _ _ eps env, of s al ga rnd x] by blast
  qed
  then show ?thesis by (auto simp: q_episode_def)
qed

lemma q_learning_step_lookups:
  assumes "q_learning_step ops al ep ga rnd i st = Inr st'"
  shows "\<exists>r. q_lookups st' = q_lookups st @ [r] \<and> q_rewards st' = q_rewards st + r"
  using assms
  by (auto simp: q_learning_step_def Let_def split: sum.splits prod.splits)

lemma q_episode_lookups:
  assumes "q_episode ops self Q n al ep ga rnd = Inr st"
  shows "length (q_lookups st) = n \<and> q_rewards st = sum_list (q_lookups st)"
proof -
  let ?st0 = "\<lparr>q_self = self, q_stateActionValues = Q,
        q_currentState = get_state ops (environment self), q_rewards = 0, q_lookups = []\<rparr>"
  have "\<And>xs s s'. for_loop xs (q_learning_step ops al ep ga rnd) s = Inr s' \<Longrightarrow>
     length (q_lookups s') = length (q_lookups s) + length xs \<and>
     q_rewards s' - sum_list (q_lookups s') = q_rewards s - sum_list (q_lookups s)"
  proof -
    fix xs :: "nat list" and s s' :: "'a q_state"
    show "for_loop xs (q_learning_step ops al ep ga rnd) s = Inr s' \<Longrightarrow>
     length (q_lookups s') = length (q_lookups s) + length xs \<and>
     q_rewards s' - sum_list (q_lookups s') = q_rewards s - sum_list (q_lookups s)"
    proof (induction xs arbitrary: s)
      case Nil
      then show ?case by simp
    next
      case (Cons x xs)
      from Cons.prems obtain s1 where b: "q_learning_step ops al ep ga rnd x s = Inr s1"
        and r: "for_loop xs (q_learning_step ops al ep ga rnd) s1 = Inr s'"
        by (auto split: sum.splits)
      from q_learning_step_lookups [OF b] obtain rr where
        "q_lookups s1 = q_lookups s @ [rr]" "q_rewards s1 = q_rewards s + rr" by blast
      with Cons.IH [OF r] show ?case by simp
    qed
  qed
  from this [of "[0..<n]" ?st0 st] assms show ?thesis
    by (simp add: q_episode_def)
qed

lemma two_state_episode1: "q_episode two_state_ops two_state_mdp [[0, 0], [0, 0]] 1 (1 / 10) 0 (9 / 10) first_draws =
   Inr \<lparr>q_self = two_state_mdp, q_stateActionValues = [[1 / 10, 0], [0, 0]], q_currentState = 0,
        q_rewards = 1, q_lookups = [1]\<rparr>"
  by (simp add: q_episode_def q_learning_step_def two_state_ops_def two_state_mdp_def first_draws_def
     chooseAction_def binomial1_def random_choice_def idx1_def idx2_def idx3_def argmax_actions_def np_max_def np_where_eq_def Let_def)

lemma two_state_episode2: "q_episode two_state_ops two_state_mdp [[0, 0], [0, 0]] 2 (1 / 10) 0 (9 / 10) first_draws =
   Inr \<lparr>q_self = two_state_mdp, q_stateActionValues = [[199 / 1000, 0], [0, 0]], q_currentState = 0,
        q_rewards = 2, q_lookups = [1, 1]\<rparr>"
  by (simp add: q_episode_def q_learning_step_def two_state_ops_def two_state_mdp_def first_draws_def
     chooseAction_def binomial1_def random_choice_def idx1_def idx2_def idx3_def argmax_actions_def np_max_def np_where_eq_def Let_def numeral_2_eq_2)

lemma two_state_first_step: "q_learning_step two_state_ops (1 / 10) 0 (9 / 10) first_draws 0
       \<lparr>q_self = two_state_mdp, q_stateActionValues = [[0, 0], [0, 0]], q_currentState = 0,
        q_rewards = 0, q_lookups = []\<rparr> = Inr \<lparr>q_self = two_state_mdp, q_stateActionValues = [[1 / 10, 0], [0, 0]], q_currentState = 0,
        q_rewards = 1, q_lookups = [1]\<rparr>"
  by (simp add: q_learning_step_def two_state_ops_def two_state_mdp_def first_draws_def
     chooseAction_def binomial1_def random_choice_def idx1_def idx2_def idx3_def argmax_actions_def np_max_def np_where_eq_def Let_def)


text \<open>
  Claim C3.  In every pass of the loop of \<open>q_learning\<close> that completes, the reward added
  to \<open>rewards\<close> and used in the update is the entry of the environment's reward tensor at
  (\<open>currentState\<close>, \<open>currentAction\<close>, \<open>newState\<close>), not the reward \<open>step\<close> reported
  (changing the reported reward changes nothing); the entry \<open>Q[s, a]\<close> becomes
  \<open>Q[s, a] + alpha * (r + gamma * max(Q[s_next, :]) - Q[s, a])\<close>, and no other entry of the
  table changes.
\<close>

theorem q_learning_step_update:
  assumes "q_learning_step ops stepSizeAlpha explorationProbEpsilon discountGamma rnd
             numIterations st = Inr st'"
  shows "\<exists>a r.
           chooseAction (q_self st) (q_currentState st) (q_stateActionValues st)
             explorationProbEpsilon (rnd numIterations) = Inr a \<and>
           environment (q_self st') = fst (step ops (environment (q_self st)) a) \<and>
           q_currentState st' = get_state ops (environment (q_self st')) \<and>
           idx3 (rewardsTable ops (environment (q_self st'))) (q_currentState st) a
             (q_currentState st') = Inr r \<and>
           q_rewards st' = q_rewards st + r \<and>
           q_currentState st < length (q_stateActionValues st) \<and>
           a < length (q_stateActionValues st ! q_currentState st) \<and>
           q_stateActionValues st' ! q_currentState st ! a =
             q_stateActionValues st ! q_currentState st ! a +
             stepSizeAlpha *
               (r + discountGamma * Max (set (q_stateActionValues st ! q_currentState st')) -
                q_stateActionValues st ! q_currentState st ! a) \<and>
           (\<forall>s' a'. (s', a') \<noteq> (q_currentState st, a) \<longrightarrow>
              q_stateActionValues st' ! s' ! a' = q_stateActionValues st ! s' ! a') \<and>
           length (q_stateActionValues st') = length (q_stateActionValues st) \<and>
           (\<forall>s'. length (q_stateActionValues st' ! s') = length (q_stateActionValues st ! s')) \<and>
           (\<forall>f. q_learning_step (with_reported_reward f ops) stepSizeAlpha explorationProbEpsilon
                  discountGamma rnd numIterations st = Inr st')"
proof -
  let ?Q = "q_stateActionValues st" and ?s = "q_currentState st"
  from assms obtain a env ob reward gameOver history r q newRow best where
    a: "chooseAction (q_self st) ?s ?Q explorationProbEpsilon (rnd numIterations) = Inr a"
    and stp: "step ops (environment (q_self st)) a = (env, ob, reward, gameOver, history)"
    and r: "idx3 (rewardsTable ops env) ?s a (get_state ops env) = Inr r"
    and q: "idx2 ?Q ?s a = Inr q"
    and row: "idx1 ?Q (get_state ops env) = Inr newRow"
    and best: "np_max newRow = Inr best"
    and st': "st' = \<lparr>q_self = (q_self st)\<lparr>environment := env\<rparr>,
             q_stateActionValues = ?Q[?s := (?Q ! ?s)[a := q + stepSizeAlpha * (r + discountGamma * best - q)]],
             q_currentState = get_state ops env,
             q_rewards = q_rewards st + r,
             q_lookups = q_lookups st @ [r]\<rparr>"
    by (auto simp: q_learning_step_def Let_def split: sum.splits prod.splits)
  from q have s: "?s < length ?Q" and al: "a < length (?Q ! ?s)" and qv: "q = ?Q ! ?s ! a"
    by (auto dest: idx2_Inr)
  from row have nr: "newRow = ?Q ! get_state ops env"
    by (auto dest: idx1_Inr)
  from best have bv: "best = Max (set newRow)"
    by (auto dest: np_max_Inr_iff)
  have entry: "q_stateActionValues st' ! ?s ! a =
      ?Q ! ?s ! a + stepSizeAlpha * (r + discountGamma * Max (set (?Q ! q_currentState st')) - ?Q ! ?s ! a)"
    using s al by (simp add: st' qv bv nr)
  have others: "\<forall>s' a'. (s', a') \<noteq> (?s, a) \<longrightarrow> q_stateActionValues st' ! s' ! a' = ?Q ! s' ! a'"
  proof (intro allI impI)
    fix s' a'
    assume ne: "(s', a') \<noteq> (?s, a)"
    show "q_stateActionValues st' ! s' ! a' = ?Q ! s' ! a'"
    proof (cases "s' = ?s")
      case True
      with ne have "a' \<noteq> a" by simp
      then show ?thesis using True s by (simp add: st')
    next
      case False
      then show ?thesis by (simp add: st')
    qed
  qed
  have lens: "\<forall>s'. length (q_stateActionValues st' ! s') = length (?Q ! s')"
  proof
    fix s'
    show "length (q_stateActionValues st' ! s') = length (?Q ! s')"
      using s by (cases "s' = ?s") (simp_all add: st')
  qed
  have indep: "\<forall>f. q_learning_step (with_reported_reward f ops) stepSizeAlpha explorationProbEpsilon
                  discountGamma rnd numIterations st = Inr st'"
    using assms by (simp add: q_learning_step_reported_reward)
  have "environment (q_self st') = fst (step ops (environment (q_self st)) a)"
    by (simp add: st' stp)
  moreover have "q_currentState st' = get_state ops (environment (q_self st'))"
    by (simp add: st')
  moreover have "idx3 (rewardsTable ops (environment (q_self st'))) ?s a (q_currentState st') = Inr r"
    using r by (simp add: st')
  moreover have "q_rewards st' = q_rewards st + r"
    by (simp add: st')
  moreover have "length (q_stateActionValues st') = length ?Q"
    by (simp add: st')
  ultimately show ?thesis
    using a s al entry others lens indep by blast
qed

theorem q_learning_step_update_witness:
  "q_learning_step two_state_ops (1 / 10) 0 (9 / 10) first_draws 0
       \<lparr>q_self = two_state_mdp, q_stateActionValues = [[0, 0], [0, 0]], q_currentState = 0,
        q_rewards = 0, q_lookups = []\<rparr> =
     Inr \<lparr>q_self = two_state_mdp, q_stateActionValues = [[1 / 10, 0], [0, 0]],
          q_currentState = 0, q_rewards = 1, q_lookups = [1]\<rparr> \<and>
   q_learning_step (with_reported_reward (\<lambda>r. r + 100) two_state_ops) (1 / 10) 0 (9 / 10)
       first_draws 0
       \<lparr>q_self = two_state_mdp, q_stateActionValues = [[0, 0], [0, 0]], q_currentState = 0,
        q_rewards = 0, q_lookups = []\<rparr> =
     Inr \<lparr>q_self = two_state_mdp, q_stateActionValues = [[1 / 10, 0], [0, 0]],
          q_currentState = 0, q_rewards = 1, q_lookups = [1]\<rparr>"
  using q_learning_step_update [OF two_state_first_step] two_state_first_step by blast

text \<open>
  The claim C10 as stated says the returned value is never the undivided total.  With a
  single iteration the mean is the total: the episode below reads the reward 1 once and
  returns 1.
\<close>

theorem q_learning_one_step_returns_the_total:
  "q_episode two_state_ops two_state_mdp [[0, 0], [0, 0]] 1 (1 / 10) 0 (9 / 10) first_draws =
     Inr \<lparr>q_self = two_state_mdp, q_stateActionValues = [[1 / 10, 0], [0, 0]],
          q_currentState = 0, q_rewards = 1, q_lookups = [1]\<rparr> \<and>
   q_learning two_state_ops two_state_mdp [[0, 0], [0, 0]] 1 (1 / 10) 0 (9 / 10) first_draws =
     Inr (sum_list [1], two_state_mdp, [[1 / 10, 0], [0, 0]])"
  using two_state_episode1 by (simp add: q_learning_def)

lemma q_learning_same_mean_other_total:
  "\<exists>st1 st2 ret self1 self2 Q1 Q2.
     q_episode two_state_ops two_state_mdp [[0, 0], [0, 0]] 1 (1 / 10) 0 (9 / 10) first_draws = Inr st1 \<and>
     q_episode two_state_ops two_state_mdp [[0, 0], [0, 0]] 2 (1 / 10) 0 (9 / 10) first_draws = Inr st2 \<and>
     q_learning two_state_ops two_state_mdp [[0, 0], [0, 0]] 1 (1 / 10) 0 (9 / 10) first_draws =
       Inr (ret, self1, Q1) \<and>
     q_learning two_state_ops two_state_mdp [[0, 0], [0, 0]] 2 (1 / 10) 0 (9 / 10) first_draws =
       Inr (ret, self2, Q2) \<and>
     sum_list (q_lookups st1) \<noteq> sum_list (q_lookups st2)"
  using two_state_episode1 two_state_episode2 by (simp add: q_learning_def)


text \<open>
  Claim C10, as the code has it.  A call of \<open>q_learning\<close> with \<open>n > 0\<close> iterations on
  well-shaped inputs returns, and what any call returns is the sum of the \<open>n\<close> rewards
  read from the reward tensor divided by \<open>n\<close>.  That value differs from the undivided
  total unless \<open>n = 1\<close> or the total is 0.  The total cannot be recovered from the
  returned value alone: two episodes return the same value with different totals.
\<close>

theorem q_learning_returns_mean:
  "(is_matrix S A stateActionValues \<and> 0 < A \<and> mdp_A self = A \<and>
    0 \<le> explorationProbEpsilon \<and> explorationProbEpsilon \<le> 1 \<and>
    (\<forall>e. get_state ops e < S) \<and> (\<forall>e. is_tensor S A S (rewardsTable ops e)) \<and> 0 < n \<longrightarrow>
      (\<exists>ret self' Q'. q_learning ops self stateActionValues n stepSizeAlpha explorationProbEpsilon
          discountGamma rnd = Inr (ret, self', Q'))) \<and>
   (\<forall>ret self' Q'.
      q_learning ops self stateActionValues n stepSizeAlpha explorationProbEpsilon discountGamma rnd =
        Inr (ret, self', Q') \<longrightarrow>
      (\<exists>st. q_episode ops self stateActionValues n stepSizeAlpha explorationProbEpsilon
               discountGamma rnd = Inr st \<and>
            0 < n \<and> length (q_lookups st) = n \<and>
            ret = sum_list (q_lookups st) / real n \<and>
            (ret = sum_list (q_lookups st) \<longleftrightarrow> n = 1 \<or> sum_list (q_lookups st) = 0) \<and>
            self' = q_self st \<and> Q' = q_stateActionValues st)) \<and>
   (\<exists>st1 st2 ret self1 self2 Q1 Q2.
     q_episode two_state_ops two_state_mdp [[0, 0], [0, 0]] 1 (1 / 10) 0 (9 / 10) first_draws = Inr st1 \<and>
     q_episode two_state_ops two_state_mdp [[0, 0], [0, 0]] 2 (1 / 10) 0 (9 / 10) first_draws = Inr st2 \<and>
     q_learning two_state_ops two_state_mdp [[0, 0], [0, 0]] 1 (1 / 10) 0 (9 / 10) first_draws =
       Inr (ret, self1, Q1) \<and>
     q_learning two_state_ops two_state_mdp [[0, 0], [0, 0]] 2 (1 / 10) 0 (9 / 10) first_draws =
       Inr (ret, self2, Q2) \<and>
     sum_list (q_lookups st1) \<noteq> sum_list (q_lookups st2))"
proof (intro conjI impI allI)
  show "\<exists>st1 st2 ret self1 self2 Q1 Q2.
     q_episode two_state_ops two_state_mdp [[0, 0], [0, 0]] 1 (1 / 10) 0 (9 / 10) first_draws = Inr st1 \<and>
     q_episode two_state_ops two_state_mdp [[0, 0], [0, 0]] 2 (1 / 10) 0 (9 / 10) first_draws = Inr st2 \<and>
     q_learning two_state_ops two_state_mdp [[0, 0], [0, 0]] 1 (1 / 10) 0 (9 / 10) first_draws =
       Inr (ret, self1, Q1) \<and>
     q_learning two_state_ops two_state_mdp [[0, 0], [0, 0]] 2 (1 / 10) 0 (9 / 10) first_draws =
       Inr (ret, self2, Q2) \<and>
     sum_list (q_lookups st1) \<noteq> sum_list (q_lookups st2)"
    by (rule q_learning_same_mean_other_total)
next
  assume h: "is_matrix S A stateActionValues \<and> 0 < A \<and> mdp_A self = A \<and>
    0 \<le> explorationProbEpsilon \<and> explorationProbEpsilon \<le> 1 \<and>
    (\<forall>e. get_state ops e < S) \<and> (\<forall>e. is_tensor S A S (rewardsTable ops e)) \<and> 0 < n"
  then obtain st where "q_episode ops self stateActionValues n stepSizeAlpha explorationProbEpsilon
               discountGamma rnd = Inr st"
    using q_episode_total [of S A stateActionValues self explorationProbEpsilon ops n stepSizeAlpha discountGamma rnd]
    by blast
  then show "\<exists>ret self' Q'. q_learning ops self stateActionValues n stepSizeAlpha explorationProbEpsilon
          discountGamma rnd = Inr (ret, self', Q')"
    using h by (simp add: q_learning_def)
next
  fix ret self' Q'
  assume r: "q_learning ops self stateActionValues n stepSizeAlpha explorationProbEpsilon discountGamma rnd =
        Inr (ret, self', Q')"
  then obtain st where st: "q_episode ops self stateActionValues n stepSizeAlpha explorationProbEpsilon
               discountGamma rnd = Inr st"
    and n: "0 < n" and ret: "ret = q_rewards st / real n"
    and rest: "self' = q_self st" "Q' = q_stateActionValues st"
    by (auto simp: q_learning_def split: sum.splits if_splits)
  from q_episode_lookups [OF st] have len: "length (q_lookups st) = n"
    and sum: "q_rewards st = sum_list (q_lookups st)" by simp_all
  have mean: "ret = sum_list (q_lookups st) / real n"
    using ret sum by simp
  have "(ret = sum_list (q_lookups st)) = (n = 1 \<or> sum_list (q_lookups st) = 0)"
  proof -
    have "(sum_list (q_lookups st) / real n = sum_list (q_lookups st)) =
          (sum_list (q_lookups st) = sum_list (q_lookups st) * real n)"
      using n by (simp add: divide_eq_eq)
    also have "\<dots> = (sum_list (q_lookups st) * (real n - 1) = 0)"
      by (simp add: algebra_simps)
    also have "\<dots> = (n = 1 \<or> sum_list (q_lookups st) = 0)"
      by auto
    finally show ?thesis using mean by simp
  qed
  with st n len mean rest
  show "\<exists>st. q_episode ops self stateActionValues n stepSizeAlpha explorationProbEpsilon
               discountGamma rnd = Inr st \<and>
            0 < n \<and> length (q_lookups st) = n \<and>
            ret = sum_list (q_lookups st) / real n \<and>
            (ret = sum_list (q_lookups st) \<longleftrightarrow> n = 1 \<or> sum_list (q_lookups st) = 0) \<and>
            self' = q_self st \<and> Q' = q_stateActionValues st"
    by blast
qed

theorem q_learning_returns_mean_witness:
  "is_matrix 2 2 [[0, 0], [0, 0]] \<and> (0::nat) < 2 \<and> mdp_A two_state_mdp = 2 \<and>
   (\<forall>e. get_state two_state_ops e < 2) \<and>
   (\<forall>e. is_tensor 2 2 2 (rewardsTable two_state_ops e)) \<and>
   q_learning two_state_ops two_state_mdp [[0, 0], [0, 0]] 2 (1 / 10) 0 (9 / 10) first_draws =
     Inr (1, two_state_mdp, [[199 / 1000, 0], [0, 0]]) \<and>
   (\<exists>st. q_episode two_state_ops two_state_mdp [[0, 0], [0, 0]] 2 (1 / 10) 0 (9 / 10) first_draws =
           Inr st \<and>
         length (q_lookups st) = 2 \<and> 1 = sum_list (q_lookups st) / real 2 \<and>
         1 \<noteq> sum_list (q_lookups st))"
proof -
  have r: "q_learning two_state_ops two_state_mdp [[0, 0], [0, 0]] 2 (1 / 10) 0 (9 / 10) first_draws =
     Inr (1, two_state_mdp, [[199 / 1000, 0], [0, 0]])"
    using two_state_episode2 by (simp add: q_learning_def)
  have "\<exists>st. q_episode two_state_ops two_state_mdp [[0, 0], [0, 0]] 2 (1 / 10) 0 (9 / 10) first_draws =
           Inr st \<and>
         length (q_lookups st) = 2 \<and> 1 = sum_list (q_lookups st) / real 2 \<and>
         1 \<noteq> sum_list (q_lookups st)"
    using q_learning_returns_mean [of 2 2 "[[0, 0], [0, 0]]" two_state_mdp 0 two_state_ops 2
        "1 / 10" "9 / 10" first_draws] r
    by fastforce
  then show ?thesis
    using r by (simp add: is_matrix_def is_tensor_def two_state_mdp_def two_state_ops_def)
qed

section \<open>64-bit floats\<close>

lemmas float64_eval =
  round64_def exponent_of_def pow2_def round_half_even_def bit_length.simps
  np_squeeze_def entries_def array_map_def np_sum64_def pairwise_sum.simps sum_from_def
  np_min64_def np_minimum_def Let_def

text \<open>\<open>bit_length\<close> and \<open>exponent_of\<close> bracket their arguments between powers of two.\<close>

lemma bit_length_bounds:
  "n < 2 ^ bit_length n \<and> (0 < n \<longrightarrow> 2 ^ (bit_length n - 1) \<le> n)"
proof (induction n rule: bit_length.induct)
  case (1 n)
  show ?case
  proof (cases "n = 0")
    case True
    then show ?thesis by (simp add: bit_length.simps)
  next
    case False
    then have bl: "bit_length n = Suc (bit_length (n div 2))"
      by (subst bit_length.simps) simp
    from 1 [OF False] have up: "n div 2 < 2 ^ bit_length (n div 2)"
      and lo: "0 < n div 2 \<longrightarrow> 2 ^ (bit_length (n div 2) - 1) \<le> n div 2" by simp_all
    have a: "n < 2 ^ bit_length n"
      using up bl by simp
    have b: "2 ^ (bit_length n - 1) \<le> n"
    proof (cases "n div 2 = 0")
      case True
      then have "bit_length (n div 2) = 0" by (simp add: bit_length.simps)
      then show ?thesis using False bl by simp
    next
      case nz: False
      then have "0 < bit_length (n div 2)" by (subst bit_length.simps) simp
      then have "(2::nat) ^ bit_length (n div 2) = 2 * 2 ^ (bit_length (n div 2) - 1)"
        by (cases "bit_length (n div 2)") simp_all
      moreover have "2 ^ (bit_length (n div 2) - 1) \<le> n div 2" using lo nz by simp
      ultimately show ?thesis using bl by simp
    qed
    from a b show ?thesis by simp
  qed
qed

lemma exponent_of_bounds:
  assumes "0 < x"
  shows "pow2 (exponent_of x) \<le> x \<and> x < pow2 (exponent_of x + 1)"
proof (cases "1 \<le> x")
  case True
  define n where "n = nat \<lfloor>x\<rfloor>"
  have n1: "0 < n" using True by (simp add: n_def)
  have nx: "real n \<le> x" "x < real n + 1"
    using True by (simp_all add: n_def)
  have e: "exponent_of x = int (bit_length n) - 1"
    using True by (simp add: exponent_of_def n_def)
  have bl: "0 < bit_length n" using n1 by (subst bit_length.simps) simp
  from bit_length_bounds [of n] n1 have lo: "2 ^ (bit_length n - 1) \<le> n" and up: "n < 2 ^ bit_length n"
    by simp_all
  have p1: "pow2 (exponent_of x) = 2 ^ (bit_length n - 1)"
    using bl by (simp add: e pow2_def nat_diff_distrib')
  have p2: "pow2 (exponent_of x + 1) = 2 ^ bit_length n"
    by (simp add: e pow2_def)
  have "real (2 ^ (bit_length n - 1)) \<le> real n" using lo by (simp only: of_nat_le_iff)
  then have "(2::real) ^ (bit_length n - 1) \<le> real n" by simp
  then have a: "pow2 (exponent_of x) \<le> x" using nx(1) unfolding p1 by linarith
  have "real n + 1 \<le> real (2 ^ bit_length n)" using up
    by (metis Suc_leI of_nat_Suc of_nat_le_iff add.commute)
  then have "real n + 1 \<le> 2 ^ bit_length n" by simp
  then have b: "x < pow2 (exponent_of x + 1)" using nx(2) unfolding p2 by linarith
  from a b show ?thesis by simp
next
  case False
  then have x1: "x < 1" by simp
  define c where "c = \<lceil>1 / x\<rceil>"
  define m where "m = nat (c - 1)"
  have inv: "1 < 1 / x" using assms x1 by simp
  have c2: "2 \<le> c" using inv by (simp add: c_def)
  have m1: "0 < m" using c2 by (simp add: m_def)
  have cm: "real_of_int c = real m + 1" using c2 by (simp add: m_def)
  have "1 / x \<le> real_of_int c" "real_of_int c - 1 < 1 / x"
    unfolding c_def by linarith+
  then have cx: "1 / x \<le> real m + 1" "real m < 1 / x"
    using cm by simp_all
  have e: "exponent_of x = - int (bit_length m)"
    using False by (simp add: exponent_of_def m_def c_def)
  have bl: "0 < bit_length m" using m1 by (subst bit_length.simps) simp
  from bit_length_bounds [of m] m1 have lo: "2 ^ (bit_length m - 1) \<le> m" and up: "m < 2 ^ bit_length m"
    by simp_all
  have p1: "pow2 (exponent_of x) = 1 / 2 ^ bit_length m"
    using bl by (simp add: e pow2_def)
  have p2: "pow2 (exponent_of x + 1) = 1 / 2 ^ (bit_length m - 1)"
  proof (cases "bit_length m = 1")
    case True
    then show ?thesis by (simp add: e pow2_def)
  next
    case False
    then have "1 < bit_length m" using bl by simp
    then show ?thesis by (simp add: e pow2_def nat_diff_distrib' algebra_simps) 
  qed
  have "real m + 1 \<le> real (2 ^ bit_length m)" using up
    by (metis Suc_leI of_nat_Suc of_nat_le_iff add.commute)
  then have "real m + 1 \<le> 2 ^ bit_length m" by simp
  then have "1 / x \<le> 2 ^ bit_length m" using cx(1) by linarith
  then have "1 / 2 ^ bit_length m \<le> x"
    using assms by (simp add: field_simps)
  then have a: "pow2 (exponent_of x) \<le> x"
    unfolding p1 .
  have "real (2 ^ (bit_length m - 1)) \<le> real m" using lo by (simp only: of_nat_le_iff)
  then have "(2::real) ^ (bit_length m - 1) \<le> real m" by simp
  then have "2 ^ (bit_length m - 1) < 1 / x" using cx(2) by linarith
  then have "x < 1 / 2 ^ (bit_length m - 1)"
    using assms by (simp add: field_simps)
  then have b: "x < pow2 (exponent_of x + 1)"
    unfolding p2 .
  from a b show ?thesis by simp
qed

text \<open>Some values: \<open>0.1 + 0.2\<close> is not \<open>0.3\<close>, the float \<open>1e-30\<close>, a sum that overflows,
  and \<open>1e-30\<close> vanishing beside 1.\<close>

lemma float64_tenth_plus_fifth:
  "fadd (round64 (1 / 10)) (round64 (2 / 10)) = Finite (1351079888211149 / 4503599627370496) \<and>
   round64 (3 / 10) = Finite (5404319552844595 / 18014398509481984)"
  by (simp add: float64_eval)

lemma float64_tiny:
  "round64 (1 / 10 ^ 30) = Finite (178405961588245 / 178405961588244985132285746181186892047843328)"
  by (simp add: float64_eval)

lemma float64_overflow:
  "fadd (Finite (2 ^ 1023)) (Finite (2 ^ 1023)) = PInf"
  by (simp add: float64_eval)

lemma float64_absorbs_tiny:
  "fadd (Finite 1) (round64 (1 / 10 ^ 30)) = Finite 1"
  by (simp add: float64_eval)

lemma float64_small_numbers_representable:
  "representable (Finite 0) \<and> representable (Finite 1) \<and> representable (Finite (- 1)) \<and>
   representable (Finite 3) \<and> representable (Finite (1 / 2)) \<and> \<not> representable (Finite (1 / 10))"
  by (simp add: representable_def float64_eval)

section \<open>The rollout driver\<close>

lemma rollout_step_log:
  assumes "rollout_step ops choices printInfo rnd it st = (oc, st')"
  shows "length (r_sampled st') \<le> Suc (length (r_sampled st)) \<and>
         (r_reported st' = r_reported st \<and> r_totalReward st' = r_totalReward st \<and> (\<exists>e. oc = Raise e) \<or>
          (\<exists>r. r_reported st' = r_reported st @ [r] \<and> r_totalReward st' = r_totalReward st + r \<and>
               length (r_sampled st') = Suc (length (r_sampled st)) \<and> (oc = Break \<or> oc = Continue)))"
  using assms
  by (auto simp: rollout_step_def Let_def split: sum.splits prod.splits if_splits)

lemma rollout_loop_log:
  fixes st :: "('e, 'h) rollout"
  assumes "rollout_loop (rollout_step ops choices printInfo rnd) its st = (r, st')"
  shows "length (r_sampled st') \<le> length (r_sampled st) + length its \<and>
         length (r_reported st') \<le> length (r_reported st) + length its \<and>
         r_totalReward st' - sum_list (r_reported st') = r_totalReward st - sum_list (r_reported st)"
  using assms
proof (induction its arbitrary: st)
  case Nil
  then show ?case by simp
next
  case (Cons it its)
  obtain oc s1 where b: "rollout_step ops choices printInfo rnd it st = (oc, s1)"
    by (cases "rollout_step ops choices printInfo rnd it st")
  note log = rollout_step_log [OF b]
  have one: "length (r_sampled s1) \<le> length (r_sampled st) + 1 \<and>
         length (r_reported s1) \<le> length (r_reported st) + 1 \<and>
         r_totalReward s1 - sum_list (r_reported s1) = r_totalReward st - sum_list (r_reported st)"
    using log by auto
  show ?case
  proof (cases oc)
    case Continue
    then have "rollout_loop (rollout_step ops choices printInfo rnd) its s1 = (r, st')"
      using Cons.prems b by simp
    from Cons.IH [OF this] one show ?thesis by fastforce
  next
    case Break
    then have "st' = s1" using Cons.prems b by simp
    with one show ?thesis by auto
  next
    case (Raise e)
    then have "st' = s1" using Cons.prems b by simp
    with one show ?thesis by auto
  qed
qed

lemma rollout_loop_stdout:
  fixes st :: "('e, 'h) rollout"
  assumes "rollout_loop (rollout_step ops choices printInfo rnd) its st = (r, st')"
    and "\<forall>x. PrintTotalReward x \<notin> set (r_stdout st)"
  shows "\<forall>x. PrintTotalReward x \<notin> set (r_stdout st')"
  using assms
proof (induction its arbitrary: st)
  case Nil
  then show ?case by simp
next
  case (Cons it its)
  obtain oc s1 where b: "rollout_step ops choices printInfo rnd it st = (oc, s1)"
    by (cases "rollout_step ops choices printInfo rnd it st")
  have one: "\<forall>x. PrintTotalReward x \<notin> set (r_stdout s1)"
    using b Cons.prems(2)
    by (auto simp: rollout_step_def Let_def split: sum.splits prod.splits if_splits)
  show ?case
  proof (cases oc)
    case Continue
    then have "rollout_loop (rollout_step ops choices printInfo rnd) its s1 = (r, st')"
      using Cons.prems b by simp
    from Cons.IH [OF this one] show ?thesis .
  next
    case Break
    then have "st' = s1" using Cons.prems b by simp
    with one show ?thesis by simp
  next
    case (Raise e)
    then have "st' = s1" using Cons.prems b by simp
    with one show ?thesis by simp
  qed
qed

lemma rollout_step_Break:
  assumes "rollout_step ops choices printInfo rnd it st = (Break, s1)"
  shows "\<exists>e a. fst (snd (snd (snd (step ops e a))))"
proof -
  from assms obtain action env ob reward history where
    "step ops (environment (r_self st)) action = (env, ob, reward, True, history)"
    by (auto simp: rollout_step_def Let_def split: sum.splits prod.splits if_splits)
  then have "fst (snd (snd (snd (step ops (environment (r_self st)) action))))"
    by simp
  then show ?thesis by blast
qed

lemma rollout_loop_full_length:
  fixes st :: "('e, 'h) rollout"
  assumes "rollout_loop (rollout_step ops choices printInfo rnd) its st = (None, st')"
    and "\<forall>e a. \<not> fst (snd (snd (snd (step ops e a))))"
  shows "length (r_reported st') = length (r_reported st) + length its"
  using assms(1)
proof (induction its arbitrary: st)
  case Nil
  then show ?case by simp
next
  case (Cons it its)
  obtain oc s1 where b: "rollout_step ops choices printInfo rnd it st = (oc, s1)"
    by (cases "rollout_step ops choices printInfo rnd it st")
  have nb: "oc \<noteq> Break"
    using b assms(2) rollout_step_Break [of ops choices printInfo rnd it st s1] by auto
  show ?case
  proof (cases oc)
    case Continue
    then have 1: "rollout_loop (rollout_step ops choices printInfo rnd) its s1 = (None, st')"
      using Cons.prems b by simp
    have "length (r_reported s1) = Suc (length (r_reported st))"
      using rollout_step_log [OF b] Continue by auto
    with Cons.IH [OF 1] show ?thesis by simp
  next
    case Break
    with nb show ?thesis by simp
  next
    case (Raise e)
    then show ?thesis using Cons.prems b by simp
  qed
qed

lemma run_MDP_loop:
  fixes st :: "('e, 'h) rollout"
  assumes "run_MDP_for_given_policy ops choices self policy maxNumIterations printInfo ppi rnd = (res, st)"
  shows "\<exists>r st'. rollout_loop (rollout_step ops choices printInfo rnd) [0..<maxNumIterations]
            \<lparr>r_self = self\<lparr>environment := reset ops (environment self)\<rparr>, r_policy = policy,
             r_s = get_state ops (reset ops (environment self)),
             r_totalReward = 0, r_stdout = [], r_sampled = [], r_reported = []\<rparr> = (r, st') \<and>
           res = (case r of Some e \<Rightarrow> Inl e | None \<Rightarrow> Inr PyNone) \<and>
           r_sampled st = r_sampled st' \<and> r_reported st = r_reported st' \<and>
           r_totalReward st = r_totalReward st' \<and>
           r_stdout st = r_stdout st' @
              (if r = None \<and> printInfo then [PrintTotalReward (r_totalReward st')] else [])"
  using assms
  by (auto simp: run_MDP_for_given_policy_def Let_def split: prod.splits option.splits if_splits)

text \<open>The loop makes at most \<open>maxNumIterations\<close> passes, and exactly that many when
  the environment never signals the end and nothing raises.\<close>

lemma run_MDP_for_given_policy_pass_bound:
  fixes st :: "('e, 'h) rollout"
  assumes "run_MDP_for_given_policy ops choices self policy maxNumIterations printInfo
             printPostProcessingInfo rnd = (res, st)"
  shows "length (r_sampled st) \<le> maxNumIterations \<and>
         length (r_reported st) \<le> maxNumIterations \<and>
         ((\<forall>e a. \<not> fst (snd (snd (snd (step ops e a))))) \<and> res = Inr PyNone \<longrightarrow>
            length (r_reported st) = maxNumIterations)"
proof -
  from run_MDP_loop [OF assms] obtain r st' where
    loop: "rollout_loop (rollout_step ops choices printInfo rnd) [0..<maxNumIterations]
            \<lparr>r_self = self\<lparr>environment := reset ops (environment self)\<rparr>, r_policy = policy,
             r_s = get_state ops (reset ops (environment self)),
             r_totalReward = 0, r_stdout = [], r_sampled = [], r_reported = []\<rparr> = (r, st')"
    and res: "res = (case r of Some e \<Rightarrow> Inl e | None \<Rightarrow> Inr PyNone)"
    and same: "r_sampled st = r_sampled st'" "r_reported st = r_reported st'"
    by blast
  note log = rollout_loop_log [OF loop]
  have l1: "length (r_sampled st) \<le> maxNumIterations"
    and l2: "length (r_reported st) \<le> maxNumIterations"
    using log same by simp_all
  have full: "(\<forall>e a. \<not> fst (snd (snd (snd (step ops e a))))) \<and> res = Inr PyNone \<longrightarrow>
            length (r_reported st) = maxNumIterations"
  proof
    assume h: "(\<forall>e a. \<not> fst (snd (snd (snd (step ops e a))))) \<and> res = Inr PyNone"
    then have "r = None" using res by (cases r) simp_all
    with loop h rollout_loop_full_length [of ops choices printInfo rnd "[0..<maxNumIterations]" _ st']
    show "length (r_reported st) = maxNumIterations"
      using same by simp
  qed
  from l1 l2 full show ?thesis
    by blast
qed

lemma prepare_weights_zero_sum:
  "prepare_weights [Finite 1, Finite (- 1)] = Inr (False, Array1 [Finite (1 / 2), Finite (1 / 2)])"
  by (simp add: prepare_weights_def float64_eval)

lemma prepare_weights_negative_entry:
  "prepare_weights [Finite (- 1), Finite 3] = Inr (True, Array1 [Finite 0, Finite 1])"
  by (simp add: prepare_weights_def float64_eval)

lemma prepare_weights_equal_negatives:
  "prepare_weights [Finite (- 1), Finite (- 1)] = Inr (True, Array1 [NaN, NaN])"
  by (simp add: prepare_weights_def float64_eval)

lemma prepare_weights_one_action:
  "prepare_weights [Finite 2] = Inr (True, Array0 (Finite 1))"
  by (simp add: prepare_weights_def float64_eval)

text \<open>Two passes in the two-state environment, from a policy whose first row sums to
  zero and whose second row has a negative entry.\<close>

lemma two_state_rollout:
  "run_MDP_for_given_policy two_state_ops choose_by_draw two_state_mdp
      [[Finite 1, Finite (- 1)], [Finite (- 1), Finite 3]] 2 False False (\<lambda>it. Suc it) =
     (Inr PyNone,
      \<lparr>r_self = two_state_mdp\<lparr>environment := 0\<rparr>,
       r_policy = [[Finite 1, Finite (- 1)], [Finite 0, Finite 1]],
       r_s = 0, r_totalReward = 20, r_stdout = [],
       r_sampled = [Array1 [Finite (1 / 2), Finite (1 / 2)], Array1 [Finite 0, Finite 1]],
       r_reported = [10, 10]\<rparr>)"
  by (simp add: run_MDP_for_given_policy_def rollout_step_def two_state_ops_def two_state_mdp_def
     choose_by_draw_def prepare_weights_zero_sum prepare_weights_negative_entry idx1_def
     sum_from_def float64_eval numeral_2_eq_2)

lemma two_state_rollout_printing:
  "run_MDP_for_given_policy two_state_ops choose_by_draw two_state_mdp
      [[Finite 1, Finite (- 1)], [Finite (- 1), Finite 3]] 2 True False (\<lambda>it. Suc it) =
     (Inr PyNone,
      \<lparr>r_self = two_state_mdp\<lparr>environment := 0\<rparr>,
       r_policy = [[Finite 1, Finite (- 1)], [Finite 0, Finite 1]],
       r_s = 0, r_totalReward = 20,
       r_stdout = [PrintHistory (), PrintHistory (), PrintTotalReward 20],
       r_sampled = [Array1 [Finite (1 / 2), Finite (1 / 2)], Array1 [Finite 0, Finite 1]],
       r_reported = [10, 10]\<rparr>)"
  by (simp add: run_MDP_for_given_policy_def rollout_step_def two_state_ops_def two_state_mdp_def
     choose_by_draw_def prepare_weights_zero_sum prepare_weights_negative_entry idx1_def
     sum_from_def float64_eval numeral_2_eq_2)

text \<open>
  Claim C5 says that the weight vector passed to the sampler is always non-negative.
  The code means to achieve that (its comment reads: make them all positive) by adding
  \<open>(-minWeight) + 1e-30\<close> to a row with a negative entry, but in 64-bit floats
  \<open>1 + 1e-30\<close> is 1.  For a policy whose rows are \<open>[-1, -1]\<close> the shifted row is
  \<open>[0, 0]\<close>, its sum is 0, and the division leaves \<open>[nan, nan]\<close>: these are the weights
  written into the caller's matrix and passed to the sampler, whatever sampler is used;
  the call ends as the sampler's call on \<open>[nan, nan]\<close> ends, and a sampler that checks
  the total as \<open>random.choices\<close> does raises \<open>ValueError\<close> in the first pass.
\<close>

theorem run_MDP_for_given_policy_passes_nan_weights:
  "representable (Finite (- 1)) \<and>
   fadd (fneg (Finite (- 1))) (round64 (1 / 10 ^ 30)) = Finite 1 \<and>
   prepare_weights [Finite (- 1), Finite (- 1)] = Inr (True, Array1 [NaN, NaN]) \<and>
   fst (run_MDP_for_given_policy two_state_ops choices two_state_mdp
          [[Finite (- 1), Finite (- 1)], [Finite (- 1), Finite (- 1)]] 1 False False rnd) =
     (case choices [0, 1] (Array1 [NaN, NaN]) (rnd 0) of
        Inl e \<Rightarrow> Inl e
      | Inr action \<Rightarrow> Inr PyNone) \<and>
   run_MDP_for_given_policy two_state_ops choose_by_draw two_state_mdp
      [[Finite (- 1), Finite (- 1)], [Finite (- 1), Finite (- 1)]] 1 False False (\<lambda>it. Suc it) =
     (Inl ValueError,
      \<lparr>r_self = two_state_mdp\<lparr>environment := 0\<rparr>,
       r_policy = [[NaN, NaN], [Finite (- 1), Finite (- 1)]],
       r_s = 0, r_totalReward = 0, r_stdout = [],
       r_sampled = [Array1 [NaN, NaN]],
       r_reported = []\<rparr>)"
proof -
  have 0: "representable (Finite (- 1))"
    by (simp add: representable_def float64_eval)
  have 1: "fadd (fneg (Finite (- 1))) (round64 (1 / 10 ^ 30)) = Finite 1"
    by (simp add: float64_eval)
  have 2: "fst (run_MDP_for_given_policy two_state_ops choices two_state_mdp
          [[Finite (- 1), Finite (- 1)], [Finite (- 1), Finite (- 1)]] 1 False False rnd) =
     (case choices [0, 1] (Array1 [NaN, NaN]) (rnd 0) of
        Inl e \<Rightarrow> Inl e
      | Inr action \<Rightarrow> Inr PyNone)"
    by (simp add: run_MDP_for_given_policy_def rollout_step_def two_state_ops_def two_state_mdp_def
       prepare_weights_equal_negatives idx1_def upt_rec split: sum.splits)
  have 3: "run_MDP_for_given_policy two_state_ops choose_by_draw two_state_mdp
      [[Finite (- 1), Finite (- 1)], [Finite (- 1), Finite (- 1)]] 1 False False (\<lambda>it. Suc it) =
     (Inl ValueError,
      \<lparr>r_self = two_state_mdp\<lparr>environment := 0\<rparr>,
       r_policy = [[NaN, NaN], [Finite (- 1), Finite (- 1)]],
       r_s = 0, r_totalReward = 0, r_stdout = [],
       r_sampled = [Array1 [NaN, NaN]],
       r_reported = []\<rparr>)"
    by (simp add: run_MDP_for_given_policy_def rollout_step_def two_state_ops_def two_state_mdp_def
       choose_by_draw_def prepare_weights_equal_negatives idx1_def sum_from_def float64_eval)
  from 0 1 prepare_weights_equal_negatives 2 3 show ?thesis by simp
qed

text \<open>
  The claim C7 as stated says the call returns the accumulated reward.  It returns
  \<open>None\<close>: the run below accumulates 20 and hands nothing back.
\<close>

theorem run_MDP_for_given_policy_returns_no_total:
  "fst (run_MDP_for_given_policy two_state_ops choose_by_draw two_state_mdp
      [[Finite 1, Finite (- 1)], [Finite (- 1), Finite 3]] 2 False False (\<lambda>it. Suc it)
        :: (error + pyvalue) \<times> (nat, unit) rollout) = Inr PyNone \<and>
   r_totalReward (snd (run_MDP_for_given_policy two_state_ops choose_by_draw two_state_mdp
      [[Finite 1, Finite (- 1)], [Finite (- 1), Finite 3]] 2 False False (\<lambda>it. Suc it)
        :: (error + pyvalue) \<times> (nat, unit) rollout)) = 20 \<and>
   r_stdout (snd (run_MDP_for_given_policy two_state_ops choose_by_draw two_state_mdp
      [[Finite 1, Finite (- 1)], [Finite (- 1), Finite 3]] 2 False False (\<lambda>it. Suc it)
        :: (error + pyvalue) \<times> (nat, unit) rollout)) = []"
  by (simp add: two_state_rollout)

text \<open>
  Claim C7, as the code has it.  \<open>run_MDP_for_given_policy\<close> accumulates in
  \<open>totalReward\<close> the sum of the rewards \<open>step\<close> reported over the executed steps; it
  returns \<open>None\<close> to its caller (or raises), never a number and never a per-step
  trajectory; the total is printed, last, when \<open>printInfo\<close> is set, and not at all
  otherwise.
\<close>

theorem run_MDP_for_given_policy_returns_None:
  fixes st :: "('e, 'h) rollout"
  assumes "run_MDP_for_given_policy ops choices self policy maxNumIterations printInfo
             printPostProcessingInfo rnd = (res, st)"
  shows "r_totalReward st = sum_list (r_reported st) \<and>
         (res = Inr PyNone \<or> (\<exists>e. res = Inl e)) \<and>
         (\<forall>x. res \<noteq> Inr (PyFloat x)) \<and>
         (res = Inr PyNone \<and> printInfo \<longrightarrow>
            r_stdout st \<noteq> [] \<and> last (r_stdout st) = PrintTotalReward (r_totalReward st)) \<and>
         (\<not> printInfo \<longrightarrow> (\<forall>x. PrintTotalReward x \<notin> set (r_stdout st)))"
proof -
  from run_MDP_loop [OF assms] obtain r st' where
    loop: "rollout_loop (rollout_step ops choices printInfo rnd) [0..<maxNumIterations]
            \<lparr>r_self = self\<lparr>environment := reset ops (environment self)\<rparr>, r_policy = policy,
             r_s = get_state ops (reset ops (environment self)),
             r_totalReward = 0, r_stdout = [], r_sampled = [], r_reported = []\<rparr> = (r, st')"
    and res: "res = (case r of Some e \<Rightarrow> Inl e | None \<Rightarrow> Inr PyNone)"
    and same: "r_reported st = r_reported st'" "r_totalReward st = r_totalReward st'"
    and out: "r_stdout st = r_stdout st' @
              (if r = None \<and> printInfo then [PrintTotalReward (r_totalReward st')] else [])"
    by blast
  have total: "r_totalReward st = sum_list (r_reported st)"
    using rollout_loop_log [OF loop] same by simp
  have none: "\<forall>x. PrintTotalReward x \<notin> set (r_stdout st')"
    using rollout_loop_stdout [OF loop] by simp
  have r1: "res = Inr PyNone \<or> (\<exists>e. res = Inl e)"
    using res by (cases r) simp_all
  have r2: "\<forall>x. res \<noteq> Inr (PyFloat x)"
    using res by (cases r) simp_all
  have p1: "res = Inr PyNone \<and> printInfo \<longrightarrow>
            r_stdout st \<noteq> [] \<and> last (r_stdout st) = PrintTotalReward (r_totalReward st)"
    using res out same by (cases r) simp_all
  have p2: "\<not> printInfo \<longrightarrow> (\<forall>x. PrintTotalReward x \<notin> set (r_stdout st))"
    using out none by simp
  from total r1 r2 p1 p2 show ?thesis by blast
qed

theorem run_MDP_for_given_policy_returns_None_witness:
  "run_MDP_for_given_policy two_state_ops choose_by_draw two_state_mdp
      [[Finite 1, Finite (- 1)], [Finite (- 1), Finite 3]] 2 True False (\<lambda>it. Suc it) =
     (Inr PyNone,
      \<lparr>r_self = two_state_mdp\<lparr>environment := 0\<rparr>,
       r_policy = [[Finite 1, Finite (- 1)], [Finite 0, Finite 1]],
       r_s = 0, r_totalReward = 20,
       r_stdout = [PrintHistory (), PrintHistory (), PrintTotalReward 20],
       r_sampled = [Array1 [Finite (1 / 2), Finite (1 / 2)], Array1 [Finite 0, Finite 1]],
       r_reported = [10, 10]\<rparr>) \<and>
   (20::real) = sum_list [10, 10] \<and>
   last [PrintHistory (), PrintHistory (), PrintTotalReward 20] = PrintTotalReward 20"
  using run_MDP_for_given_policy_returns_None [OF two_state_rollout_printing]
    two_state_rollout_printing
  by simp

section \<open>Policy evaluation\<close>

lemma for_loop_sum:
  fixes f :: "nat \<Rightarrow> real"
  assumes "\<And>i acc. i < n \<Longrightarrow> body i acc = Inr (acc + f i)"
  shows "for_loop [0..<n] body acc = Inr (acc + (\<Sum>i<n. f i))"
  using assms
proof (induction n)
  case 0
  then show ?case by simp
next
  case (Suc n)
  have "for_loop [0..<n] body acc = Inr (acc + (\<Sum>i<n. f i))"
    using Suc.prems by (intro Suc.IH) simp
  then show ?case
    using Suc.prems [of n] by (simp add: for_loop_upt_Suc del: upt_Suc add: add.assoc)
qed

lemma for_loop_fold:
  assumes "\<And>x st. x \<in> set xs \<Longrightarrow> I st \<Longrightarrow> body x st = Inr (g x st) \<and> I (g x st)"
    and "I st"
  shows "for_loop xs body st = Inr (fold g xs st) \<and> I (fold g xs st)"
  using assms
proof (induction xs arbitrary: st)
  case Nil
  then show ?case by simp
next
  case (Cons x xs)
  have 1: "body x st = Inr (g x st)" and 2: "I (g x st)"
    using Cons.prems(1) [of x st] Cons.prems(2) by simp_all
  have "for_loop xs body (g x st) = Inr (fold g xs (g x st)) \<and> I (fold g xs (g x st))"
    using Cons.prems(1) 2 by (intro Cons.IH) simp_all
  then show ?case using 1 by simp
qed

lemma tensor_row_lengths:
  assumes "is_tensor S A S' t" "s < S" "a < A"
  shows "length t = S" "length (t ! s) = A" "length (t ! s ! a) = S'"
  using assms by (simp_all add: is_tensor_def is_matrix_def list_all_length)





text \<open>The pass, state by state.\<close>

lemma fold_update_prefix:
  fixes h :: "'a list \<Rightarrow> nat \<Rightarrow> 'a"
  assumes "k \<le> length V"
  shows "length (fold (\<lambda>s W. W[s := h W s]) [0..<k] V) = length V \<and>
         drop k (fold (\<lambda>s W. W[s := h W s]) [0..<k] V) = drop k V"
  using assms
proof (induction k)
  case 0
  then show ?case by simp
next
  case (Suc k)
  then have IH: "length (fold (\<lambda>s W. W[s := h W s]) [0..<k] V) = length V"
    "drop k (fold (\<lambda>s W. W[s := h W s]) [0..<k] V) = drop k V" by simp_all
  let ?F = "fold (\<lambda>s W. W[s := h W s]) [0..<k] V"
  have "drop (Suc k) (?F[k := h ?F k]) = drop (Suc k) ?F" by simp
  also have "\<dots> = drop 1 (drop k ?F)" by simp
  also have "\<dots> = drop (Suc k) V" using IH(2) by simp
  finally show ?case using IH(1) by simp
qed

lemma fold_update_take:
  fixes h :: "'a list \<Rightarrow> nat \<Rightarrow> 'a"
  assumes "k \<le> m"
  shows "take k (fold (\<lambda>s W. W[s := h W s]) [0..<m] V) =
         take k (fold (\<lambda>s W. W[s := h W s]) [0..<k] V)"
  using assms
proof (induction m)
  case 0
  then show ?case by simp
next
  case (Suc m)
  show ?case
  proof (cases "k = Suc m")
    case True
    then show ?thesis by simp
  next
    case False
    with Suc.prems have km: "k \<le> m" by simp
    let ?F = "fold (\<lambda>s W. W[s := h W s]) [0..<m] V"
    have "take k (?F[m := h ?F m]) = take k ?F" using km by simp
    with Suc.IH [OF km] show ?thesis by simp
  qed
qed

lemma fold_update_split:
  fixes h :: "'a list \<Rightarrow> nat \<Rightarrow> 'a"
  assumes "k \<le> m" "m \<le> length V"
  shows "fold (\<lambda>s W. W[s := h W s]) [0..<k] V =
         take k (fold (\<lambda>s W. W[s := h W s]) [0..<m] V) @ drop k V"
proof -
  let ?F = "\<lambda>j. fold (\<lambda>s W. W[s := h W s]) [0..<j] V"
  have k: "k \<le> length V" using assms by simp
  have "?F k = take k (?F k) @ drop k (?F k)" by simp
  also have "take k (?F k) = take k (?F m)"
    using fold_update_take [OF assms(1), of h V] by simp
  also have "drop k (?F k) = drop k V"
    using fold_update_prefix [OF k, of h] by simp
  finally show ?thesis .
qed

lemma fold_update_nth:
  fixes h :: "'a list \<Rightarrow> nat \<Rightarrow> 'a"
  assumes "s < m" "m \<le> length V"
  shows "fold (\<lambda>s W. W[s := h W s]) [0..<m] V ! s =
         h (take s (fold (\<lambda>s W. W[s := h W s]) [0..<m] V) @ drop s V) s"
proof -
  let ?F = "\<lambda>j. fold (\<lambda>s W. W[s := h W s]) [0..<j] V"
  have sl: "s < length V" and ss: "Suc s \<le> m" using assms by simp_all
  have len: "length (?F s) = length V"
    using fold_update_prefix [of s V h] sl by simp
  have "?F m ! s = take (Suc s) (?F m) ! s" by simp
  also have "\<dots> = take (Suc s) (?F (Suc s)) ! s"
    using fold_update_take [OF ss, of h V] by simp
  also have "\<dots> = ?F (Suc s) ! s" by simp
  also have "\<dots> = h (?F s) s" using len sl by simp
  also have "?F s = take s (?F m) @ drop s V"
    using fold_update_split [of s m V h] assms by simp
  finally show ?thesis .
qed



lemma stops_at_unique: "stops_at G V j \<Longrightarrow> stops_at G V k \<Longrightarrow> j = k"
  unfolding stops_at_def by (meson linorder_neqE_nat)

lemma stops_at_Suc:
  "stops_at G V (Suc j) \<longleftrightarrow> \<not> improvement_of (G V) V < 1 / 10 ^ 4 \<and> stops_at G (G V) j"
proof -
  have a: "(\<forall>i<Suc j. Q i) \<longleftrightarrow> Q 0 \<and> (\<forall>i<j. Q (Suc i))" for Q
    by (metis less_Suc_eq_0_disj Suc_less_eq zero_less_Suc)
  show ?thesis
    unfolding stops_at_def by (subst a) (auto simp: funpow_swap1)
qed




lemma improvement_of_sum:
  assumes "length W = S" "length W' = S"
  shows "improvement_of W W' = (\<Sum>i<S. \<bar>W ! i - W' ! i\<bar>)"
proof -
  have "improvement_of W W' = (\<Sum>i = 0..<S. map (\<lambda>(x, y). \<bar>x - y\<bar>) (zip W W') ! i)"
    using assms by (simp add: improvement_of_def sum_list_sum_nth)
  also have "\<dots> = (\<Sum>i = 0..<S. \<bar>W ! i - W' ! i\<bar>)"
    using assms by (intro sum.cong) simp_all
  finally show ?thesis by (simp add: atLeast0LessThan)
qed

lemma improvement_of_bound:
  assumes "length W = S" "length W' = S" "i < S"
  shows "\<bar>W ! i - W' ! i\<bar> \<le> improvement_of W W'"
proof -
  have "\<bar>W ! i - W' ! i\<bar> \<le> (\<Sum>i<S. \<bar>W ! i - W' ! i\<bar>)"
    using assms(3) by (intro member_le_sum) simp_all
  then show ?thesis by (simp add: improvement_of_sum [OF assms(1,2)])
qed

lemma distribution_sum:
  assumes "is_distribution xs" "length xs = n"
  shows "(\<Sum>i<n. xs ! i) = 1" "\<And>i. i < n \<Longrightarrow> 0 \<le> xs ! i"
proof -
  have "sum_list xs = (\<Sum>i = 0..<n. xs ! i)"
    using assms(2) by (simp add: sum_list_sum_nth)
  then show "(\<Sum>i<n. xs ! i) = 1"
    using assms(1) by (simp add: is_distribution_def atLeast0LessThan)
  show "\<And>i. i < n \<Longrightarrow> 0 \<le> xs ! i"
    using assms by (simp add: is_distribution_def list_all_length)
qed

lemma weighted_diff_bound:
  fixes w x y :: "nat \<Rightarrow> real"
  assumes "\<And>i. i < n \<Longrightarrow> 0 \<le> w i" "(\<Sum>i<n. w i) = 1" "\<And>i. i < n \<Longrightarrow> \<bar>x i - y i\<bar> \<le> c"
  shows "\<bar>(\<Sum>i<n. w i * x i) - (\<Sum>i<n. w i * y i)\<bar> \<le> c"
proof -
  have "(\<Sum>i<n. w i * x i) - (\<Sum>i<n. w i * y i) = (\<Sum>i<n. w i * (x i - y i))"
    by (simp add: sum_subtractf right_diff_distrib)
  also have "\<bar>\<dots>\<bar> \<le> (\<Sum>i<n. \<bar>w i * (x i - y i)\<bar>)"
    by (rule sum_abs)
  also have "\<dots> \<le> (\<Sum>i<n. w i * c)"
  proof (rule sum_mono)
    fix i assume "i \<in> {..<n}"
    then have i: "i < n" by simp
    have "\<bar>w i * (x i - y i)\<bar> = w i * \<bar>x i - y i\<bar>"
      using assms(1) [OF i] by (simp add: abs_mult)
    also have "\<dots> \<le> w i * c"
      using assms(1) [OF i] assms(3) [OF i] by (rule mult_left_mono [rotated])
    finally show "\<bar>w i * (x i - y i)\<bar> \<le> w i * c" .
  qed
  also have "\<dots> = c"
    using assms(2) by (simp add: sum_distrib_right [symmetric])
  finally show ?thesis .
qed













section \<open>Value iteration and action-value iteration\<close>

lemma fold_update_const:
  assumes "length V = n"
  shows "fold (\<lambda>s W. W[s := g s]) [0..<n] V = map g [0..<n]"
proof (rule nth_equalityI)
  show "length (fold (\<lambda>s W. W[s := g s]) [0..<n] V) = length (map g [0..<n])"
    using fold_update_prefix [of n V "\<lambda>W s. g s"] assms by simp
next
  fix i assume "i < length (fold (\<lambda>s W. W[s := g s]) [0..<n] V)"
  then have i: "i < n"
    using fold_update_prefix [of n V "\<lambda>W s. g s"] assms by simp
  then show "fold (\<lambda>s W. W[s := g s]) [0..<n] V ! i = map g [0..<n] ! i"
    using fold_update_nth [of i n V "\<lambda>W s. g s"] assms by simp
qed

lemma for_loop_collect:
  assumes "\<And>i acc. i < n \<Longrightarrow> body i acc = Inr (acc @ [f i])"
  shows "for_loop [0..<n] body acc = Inr (acc @ map f [0..<n])"
  using assms
proof (induction n)
  case 0
  then show ?case by simp
next
  case (Suc n)
  have "for_loop [0..<n] body acc = Inr (acc @ map f [0..<n])"
    using Suc.prems by (intro Suc.IH) simp
  then show ?case
    using Suc.prems [of n] by (simp add: for_loop_upt_Suc del: upt_Suc) simp
qed

lemma osv_nexts_loop:
  assumes P: "is_tensor S A S P" and R: "is_tensor S A S R"
    and V: "length V = S" and s: "s < S" and a: "a < A"
  shows "for_loop [0..<S] (osv_nexts_step P R discountGamma V s a) 0 =
           Inr (q_backup S P R discountGamma V s a)"
proof -
  have "for_loop [0..<S] (osv_nexts_step P R discountGamma V s a) 0 =
      Inr (0 + (\<Sum>n<S. P ! s ! a ! n * (R ! s ! a ! n + discountGamma * V ! n)))"
  proof (rule for_loop_sum)
    fix i acc
    assume i: "i < S"
    show "osv_nexts_step P R discountGamma V s a i acc =
        Inr (acc + P ! s ! a ! i * (R ! s ! a ! i + discountGamma * V ! i))"
      using idx3_tensor [OF P s a i] idx3_tensor [OF R s a i] V i
      by (simp add: osv_nexts_step_def idx1_def)
  qed
  then show ?thesis by (simp add: q_backup_def)
qed

lemma Max_map_upt:
  "0 < A \<Longrightarrow> Max (set (map f [0..<A])) = Max (f ` {..<A})"
  by (simp add: atLeast0LessThan)

lemma osv_state_step_eq:
  assumes P: "is_tensor S A S P" and R: "is_tensor S A S R" and A: "0 < A"
    and V: "length V = S" and s: "s < S"
  shows "osv_state_step S A P R discountGamma V s W =
           Inr (W[s := Max ((\<lambda>a. q_backup S P R discountGamma V s a) ` {..<A})])"
proof -
  have "for_loop [0..<A] (osv_action_step S P R discountGamma V s) [] =
      Inr ([] @ map (\<lambda>a. q_backup S P R discountGamma V s a) [0..<A])"
  proof (rule for_loop_collect)
    fix a acc assume a: "a < A"
    show "osv_action_step S P R discountGamma V s a acc =
        Inr (acc @ [q_backup S P R discountGamma V s a])"
      using osv_nexts_loop [OF P R V s a] by (simp add: osv_action_step_def)
  qed
  moreover have "map (\<lambda>a. q_backup S P R discountGamma V s a) [0..<A] \<noteq> []"
    using A by simp
  ultimately show ?thesis
    using A by (simp add: osv_state_step_def np_max_Inr Max_map_upt del: set_map set_upt)
qed

lemma osv_sweep_eq:
  assumes P: "is_tensor S A S P" and R: "is_tensor S A S R" and A: "0 < A"
    and V: "length V = S" and W: "length W = S"
  shows "osv_sweep S A P R discountGamma V W = Inr (value_sweep S A P R discountGamma V)"
proof -
  let ?g = "\<lambda>s. Max ((\<lambda>a. q_backup S P R discountGamma V s a) ` {..<A})"
  have "for_loop [0..<S] (osv_state_step S A P R discountGamma V) W =
      Inr (fold (\<lambda>s W. W[s := ?g s]) [0..<S] W) \<and>
      length (fold (\<lambda>s W. W[s := ?g s]) [0..<S] W) = S"
  proof (rule for_loop_fold [where I = "\<lambda>W::vec. length W = S"])
    show "length W = S" by (rule W)
  next
    fix x :: nat and st :: vec
    assume "x \<in> set [0..<S]" and st: "length st = S"
    then have x: "x < S" by simp
    show "osv_state_step S A P R discountGamma V x st = Inr (st[x := ?g x]) \<and>
        length (st[x := ?g x]) = S"
      using osv_state_step_eq [OF P R A V x] st by simp
  qed
  then show ?thesis
    using fold_update_const [OF W, of ?g]
    by (simp add: osv_sweep_def value_sweep_def)
qed

lemma value_sweep_length: "length (value_sweep S A P R discountGamma V) = S"
  by (simp add: value_sweep_def)

text \<open>The pass over the action values.\<close>

lemma oav_best_loop:
  assumes Q: "is_matrix S A Q" and n: "n < S"
  shows "k \<le> A \<Longrightarrow>
         for_loop [0..<k] (oav_best_step Q n) None =
           Inr (if k = 0 then None else Some (Max (set (take k (Q ! n)))))"
proof (induction k)
  case 0
  then show ?case by simp
next
  case (Suc k)
  then have k: "k < A" by simp
  have len: "length (Q ! n) = A"
    using Q n by (simp add: is_matrix_def list_all_length)
  have rd: "idx2 Q n k = Inr (Q ! n ! k)"
    using idx2_matrix [OF Q n k] .
  have tk: "take (Suc k) (Q ! n) = take k (Q ! n) @ [Q ! n ! k]"
    using k len by (simp add: take_Suc_conv_app_nth)
  have IH: "for_loop [0..<k] (oav_best_step Q n) None =
           Inr (if k = 0 then None else Some (Max (set (take k (Q ! n)))))"
    using Suc by simp
  have step0: "oav_best_step Q n k None = Inr (Some (Q ! n ! k))"
    using rd by (simp add: oav_best_step_def)
  have step: "oav_best_step Q n k (Some m) = Inr (Some (max (Q ! n ! k) m))" for m
    using rd by (auto simp: oav_best_step_def max_def)
  show ?case
  proof (cases "k = 0")
    case True
    then show ?thesis
      using IH step0 tk by (simp add: for_loop_upt_Suc del: upt_Suc)
  next
    case False
    then have ne: "set (take k (Q ! n)) \<noteq> {}" using k len by auto
    have "Max (set (take (Suc k) (Q ! n))) = max (Q ! n ! k) (Max (set (take k (Q ! n))))"
      using ne by (simp add: tk)
    then show ?thesis
      using IH step False by (simp add: for_loop_upt_Suc del: upt_Suc)
  qed
qed

lemma row_max_nth:
  assumes "is_matrix S A Q" "n < S"
  shows "row_max Q ! n = Max (set (Q ! n))"
  using assms by (simp add: row_max_def is_matrix_def)

lemma oav_nexts_loop:
  assumes P: "is_tensor S A S P" and R: "is_tensor S A S R" and A: "0 < A"
    and Q: "is_matrix S A Q" and s: "s < S" and a: "a < A"
  shows "for_loop [0..<S] (oav_nexts_step A P R discountGamma Q s a) 0 =
           Inr (q_backup S P R discountGamma (row_max Q) s a)"
proof -
  have "for_loop [0..<S] (oav_nexts_step A P R discountGamma Q s a) 0 =
      Inr (0 + (\<Sum>n<S. P ! s ! a ! n * (R ! s ! a ! n + discountGamma * row_max Q ! n)))"
  proof (rule for_loop_sum)
    fix i acc
    assume i: "i < S"
    have len: "length (Q ! i) = A"
      using Q i by (simp add: is_matrix_def list_all_length)
    have "for_loop [0..<A] (oav_best_step Q i) None = Inr (Some (Max (set (Q ! i))))"
      using oav_best_loop [OF Q i, of A] A len by simp
    then show "oav_nexts_step A P R discountGamma Q s a i acc =
        Inr (acc + P ! s ! a ! i * (R ! s ! a ! i + discountGamma * row_max Q ! i))"
      using idx3_tensor [OF P s a i] idx3_tensor [OF R s a i] row_max_nth [OF Q i]
      by (simp add: oav_nexts_step_def)
  qed
  then show ?thesis by (simp add: q_backup_def)
qed

lemma fold_row_update:
  assumes "s < length N"
  shows "fold (\<lambda>a N. N[s := (N ! s)[a := g a]]) xs N =
         N[s := fold (\<lambda>a r. r[a := g a]) xs (N ! s)]"
  using assms
proof (induction xs arbitrary: N)
  case Nil
  then show ?case by simp
next
  case (Cons x xs)
  then show ?case by simp
qed

lemma oav_state_step_eq:
  assumes P: "is_tensor S A S P" and R: "is_tensor S A S R" and A: "0 < A"
    and Q: "is_matrix S A Q" and N: "is_matrix S A N" and s: "s < S"
  shows "oav_state_step S A P R discountGamma Q s N =
           Inr (N[s := map (\<lambda>a. q_backup S P R discountGamma (row_max Q) s a) [0..<A]])"
proof -
  let ?g = "\<lambda>a. q_backup S P R discountGamma (row_max Q) s a"
  have "for_loop [0..<A] (oav_action_step S A P R discountGamma Q s) N =
      Inr (fold (\<lambda>a N. N[s := (N ! s)[a := ?g a]]) [0..<A] N) \<and>
      is_matrix S A (fold (\<lambda>a N. N[s := (N ! s)[a := ?g a]]) [0..<A] N)"
  proof (rule for_loop_fold [where I = "is_matrix S A"])
    show "is_matrix S A N" by (rule N)
  next
    fix x :: nat and st :: mat
    assume "x \<in> set [0..<A]" and st: "is_matrix S A st"
    then have x: "x < A" by simp
    show "oav_action_step S A P R discountGamma Q s x st = Inr (st[s := (st ! s)[x := ?g x]]) \<and>
        is_matrix S A (st[s := (st ! s)[x := ?g x]])"
      using oav_nexts_loop [OF P R A Q s x] idx2_matrix [OF st s x] is_matrix_update [OF st s]
      by (simp add: oav_action_step_def)
  qed
  moreover have "s < length N" and "length (N ! s) = A"
    using N s by (simp_all add: is_matrix_def list_all_length)
  ultimately show ?thesis
    using fold_row_update [of s N ?g "[0..<A]"] fold_update_const [of "N ! s" A ?g]
    by (simp add: oav_state_step_def)
qed

lemma is_matrix_row_update:
  assumes "is_matrix S A N" "length row = A"
  shows "is_matrix S A (N[s := row])"
proof -
  have "length (N[s := row] ! n) = A" if "n < S" for n
    using assms that by (cases "n = s") (simp_all add: is_matrix_def list_all_length)
  then show ?thesis
    using assms by (simp add: is_matrix_def list_all_length)
qed

lemma oav_sweep_eq:
  assumes P: "is_tensor S A S P" and R: "is_tensor S A S R" and A: "0 < A"
    and Q: "is_matrix S A Q" and N: "is_matrix S A N"
  shows "oav_sweep S A P R discountGamma Q N = Inr (action_sweep S A P R discountGamma Q)"
proof -
  let ?g = "\<lambda>s. map (\<lambda>a. q_backup S P R discountGamma (row_max Q) s a) [0..<A]"
  have "for_loop [0..<S] (oav_state_step S A P R discountGamma Q) N =
      Inr (fold (\<lambda>s N. N[s := ?g s]) [0..<S] N) \<and>
      is_matrix S A (fold (\<lambda>s N. N[s := ?g s]) [0..<S] N)"
  proof (rule for_loop_fold [where I = "is_matrix S A"])
    show "is_matrix S A N" by (rule N)
  next
    fix x :: nat and st :: mat
    assume "x \<in> set [0..<S]" and st: "is_matrix S A st"
    then have x: "x < S" by simp
    show "oav_state_step S A P R discountGamma Q x st = Inr (st[x := ?g x]) \<and>
        is_matrix S A (st[x := ?g x])"
      using oav_state_step_eq [OF P R A Q st x] is_matrix_row_update [OF st, of "?g x" x]
      by simp
  qed
  moreover have "length N = S" using N by (simp add: is_matrix_def)
  ultimately show ?thesis
    using fold_update_const [of N S ?g]
    by (simp add: oav_sweep_def action_sweep_def)
qed

lemma action_sweep_matrix: "is_matrix S A (action_sweep S A P R discountGamma Q)"
  by (simp add: action_sweep_def is_matrix_def list_all_length)

lemma stops_at2_Suc:
  "stops_at2 G V (Suc j) \<longleftrightarrow> \<not> improvement_of2 (G V) V < 1 / 10 ^ 4 \<and> stops_at2 G (G V) j"
proof -
  have a: "(\<forall>i<Suc j. Q i) \<longleftrightarrow> Q 0 \<and> (\<forall>i<j. Q (Suc i))" for Q
    by (metis less_Suc_eq_0_disj Suc_less_eq zero_less_Suc)
  show ?thesis
    unfolding stops_at2_def by (subst a) (auto simp: funpow_swap1)
qed

lemma osv_loop_stops:
  assumes P: "is_tensor S A S P" and R: "is_tensor S A S R" and A: "0 < A"
  shows "length V = S \<Longrightarrow> stops_at (value_sweep S A P R discountGamma) V j \<Longrightarrow>
         osv_loop S A P R discountGamma V V it =
           Some (Inr ((value_sweep S A P R discountGamma ^^ Suc j) V, it + j))"
proof (induction j arbitrary: V it)
  case 0
  then show ?case
    using osv_sweep_eq [OF P R A 0(1) 0(1), of discountGamma]
    by (subst osv_loop.simps) (simp add: stops_at_def Let_def)
next
  case (Suc j)
  let ?G = "value_sweep S A P R discountGamma"
  from Suc.prems(2) have no: "\<not> improvement_of (?G V) V < 1 / 10 ^ 4" and st: "stops_at ?G (?G V) j"
    by (simp_all add: stops_at_Suc)
  have len: "length (?G V) = S"
    by (rule value_sweep_length)
  have "osv_loop S A P R discountGamma V V it =
      osv_loop S A P R discountGamma (?G V) (?G V) (it + 1)"
    using osv_sweep_eq [OF P R A Suc.prems(1) Suc.prems(1), of discountGamma] no
    by (subst osv_loop.simps) (simp add: Let_def)
  also have "\<dots> = Some (Inr ((?G ^^ Suc j) (?G V), it + 1 + j))"
    using Suc.IH [OF len st] .
  finally show ?case by (simp add: funpow_swap1)
qed

lemma osv_loop_Some:
  assumes major: "osv_loop S A P R discountGamma V W it = Some y"
    and P: "is_tensor S A S P" and R: "is_tensor S A S R" and A: "0 < A"
    and V: "length V = S" and W: "W = V"
  shows "\<exists>j. stops_at (value_sweep S A P R discountGamma) V j \<and>
              y = Inr ((value_sweep S A P R discountGamma ^^ Suc j) V, it + j)"
proof -
  let ?Q = "\<lambda>S A P R discountGamma V W it y.
     is_tensor S A S P \<longrightarrow> is_tensor S A S R \<longrightarrow> 0 < A \<longrightarrow> length V = S \<longrightarrow> W = V \<longrightarrow>
     (\<exists>j. stops_at (value_sweep S A P R discountGamma) V j \<and>
          y = Inr ((value_sweep S A P R discountGamma ^^ Suc j) V, it + j))"
  have "?Q S A P R discountGamma V W it y"
  proof (rule osv_loop.raw_induct
      [where Pa = "\<lambda>(((((((S, A), P), R), discountGamma), V), W), it).
              ?Q S A P R discountGamma V W it",
       unfolded prod.case])
    show "osv_loop S A P R discountGamma V W it = Some y"
      by (rule major)
  next
    fix f :: "nat \<Rightarrow> nat \<Rightarrow> tensor \<Rightarrow> tensor \<Rightarrow> real \<Rightarrow> vec \<Rightarrow> vec \<Rightarrow> nat \<Rightarrow>
        (error + vec \<times> nat) option"
    fix S A P R discountGamma V W it y
    assume IH: "\<And>S A P R discountGamma V W it y.
        f S A P R discountGamma V W it = Some y \<Longrightarrow> ?Q S A P R discountGamma V W it y"
      and eq: "(case osv_sweep S A P R discountGamma V W of
          Inl e \<Rightarrow> Some (Inl e)
        | Inr new_state_values \<Rightarrow>
            let improvement = improvement_of new_state_values V;
                state_values = new_state_values in
            if improvement < 1 / 10 ^ 4 then Some (Inr (state_values, it))
            else f S A P R discountGamma state_values new_state_values (it + 1)) = Some y"
    let ?G = "value_sweep S A P R discountGamma"
    show "?Q S A P R discountGamma V W it y"
    proof (intro impI)
      assume P: "is_tensor S A S P" and R: "is_tensor S A S R" and A: "0 < A"
        and V: "length V = S" and W: "W = V"
      have sw: "osv_sweep S A P R discountGamma V W = Inr (?G V)"
        using osv_sweep_eq [OF P R A V V, of discountGamma] W by simp
      have len: "length (?G V) = S" by (rule value_sweep_length)
      show "\<exists>j. stops_at ?G V j \<and> y = Inr ((?G ^^ Suc j) V, it + j)"
      proof (cases "improvement_of (?G V) V < 1 / 10 ^ 4")
        case True
        then have "y = Inr (?G V, it)"
          using eq sw by (simp add: Let_def)
        moreover have "stops_at ?G V 0"
          using True by (simp add: stops_at_def)
        ultimately show ?thesis
          by (intro exI [of _ 0]) simp
      next
        case False
        then have "f S A P R discountGamma (?G V) (?G V) (it + 1) = Some y"
          using eq sw by (simp add: Let_def)
        from IH [OF this] P R A len
        obtain j where j: "stops_at ?G (?G V) j" "y = Inr ((?G ^^ Suc j) (?G V), it + 1 + j)"
          by blast
        have "stops_at ?G V (Suc j)"
          using False j(1) by (simp add: stops_at_Suc)
        moreover have "y = Inr ((?G ^^ Suc (Suc j)) V, it + Suc j)"
          using j(2) by (simp add: funpow_swap1)
        ultimately show ?thesis by blast
      qed
    qed
  qed
  then show ?thesis using P R A V W by blast
qed

lemma oav_loop_stops:
  assumes P: "is_tensor S A S P" and R: "is_tensor S A S R" and A: "0 < A"
  shows "is_matrix S A Q \<Longrightarrow> stops_at2 (action_sweep S A P R discountGamma) Q j \<Longrightarrow>
         oav_loop S A P R discountGamma Q Q it =
           Some (Inr ((action_sweep S A P R discountGamma ^^ Suc j) Q, it + j))"
proof (induction j arbitrary: Q it)
  case 0
  then show ?case
    using oav_sweep_eq [OF P R A 0(1) 0(1), of discountGamma]
    by (subst oav_loop.simps) (simp add: stops_at2_def)
next
  case (Suc j)
  let ?G = "action_sweep S A P R discountGamma"
  from Suc.prems(2) have no: "\<not> improvement_of2 (?G Q) Q < 1 / 10 ^ 4" and st: "stops_at2 ?G (?G Q) j"
    by (simp_all add: stops_at2_Suc)
  have len: "is_matrix S A (?G Q)"
    by (rule action_sweep_matrix)
  have "oav_loop S A P R discountGamma Q Q it =
      oav_loop S A P R discountGamma (?G Q) (?G Q) (it + 1)"
    using oav_sweep_eq [OF P R A Suc.prems(1) Suc.prems(1), of discountGamma] no
    by (subst oav_loop.simps) simp
  also have "\<dots> = Some (Inr ((?G ^^ Suc j) (?G Q), it + 1 + j))"
    using Suc.IH [OF len st] .
  finally show ?case by (simp add: funpow_swap1)
qed

lemma oav_loop_Some:
  assumes major: "oav_loop S A P R discountGamma V W it = Some y"
    and P: "is_tensor S A S P" and R: "is_tensor S A S R" and A: "0 < A"
    and V: "is_matrix S A V" and W: "W = V"
  shows "\<exists>j. stops_at2 (action_sweep S A P R discountGamma) V j \<and>
              y = Inr ((action_sweep S A P R discountGamma ^^ Suc j) V, it + j)"
proof -
  let ?Q = "\<lambda>S A P R discountGamma V W it y.
     is_tensor S A S P \<longrightarrow> is_tensor S A S R \<longrightarrow> 0 < A \<longrightarrow> is_matrix S A V \<longrightarrow> W = V \<longrightarrow>
     (\<exists>j. stops_at2 (action_sweep S A P R discountGamma) V j \<and>
          y = Inr ((action_sweep S A P R discountGamma ^^ Suc j) V, it + j))"
  have "?Q S A P R discountGamma V W it y"
  proof (rule oav_loop.raw_induct
      [where Pa = "\<lambda>(((((((S, A), P), R), discountGamma), V), W), it).
              ?Q S A P R discountGamma V W it",
       unfolded prod.case])
    show "oav_loop S A P R discountGamma V W it = Some y"
      by (rule major)
  next
    fix f :: "nat \<Rightarrow> nat \<Rightarrow> tensor \<Rightarrow> tensor \<Rightarrow> real \<Rightarrow> mat \<Rightarrow> mat \<Rightarrow> nat \<Rightarrow>
        (error + mat \<times> nat) option"
    fix S A P R discountGamma V W it y
    assume IH: "\<And>S A P R discountGamma V W it y.
        f S A P R discountGamma V W it = Some y \<Longrightarrow> ?Q S A P R discountGamma V W it y"
      and eq: "(case oav_sweep S A P R discountGamma V W of
          Inl e \<Rightarrow> Some (Inl e)
        | Inr new_action_values \<Rightarrow>
            let improvement = improvement_of2 new_action_values V in
            if improvement < 1 / 10 ^ 4 then Some (Inr (new_action_values, it))
            else f S A P R discountGamma new_action_values new_action_values (it + 1)) = Some y"
    let ?G = "action_sweep S A P R discountGamma"
    show "?Q S A P R discountGamma V W it y"
    proof (intro impI)
      assume P: "is_tensor S A S P" and R: "is_tensor S A S R" and A: "0 < A"
        and V: "is_matrix S A V" and W: "W = V"
      have sw: "oav_sweep S A P R discountGamma V W = Inr (?G V)"
        using oav_sweep_eq [OF P R A V V, of discountGamma] W by simp
      have len: "is_matrix S A (?G V)" by (rule action_sweep_matrix)
      show "\<exists>j. stops_at2 ?G V j \<and> y = Inr ((?G ^^ Suc j) V, it + j)"
      proof (cases "improvement_of2 (?G V) V < 1 / 10 ^ 4")
        case True
        then have "y = Inr (?G V, it)"
          using eq sw by simp
        moreover have "stops_at2 ?G V 0"
          using True by (simp add: stops_at2_def)
        ultimately show ?thesis
          by (intro exI [of _ 0]) simp
      next
        case False
        then have "f S A P R discountGamma (?G V) (?G V) (it + 1) = Some y"
          using eq sw by simp
        from IH [OF this] P R A len
        obtain j where j: "stops_at2 ?G (?G V) j" "y = Inr ((?G ^^ Suc j) (?G V), it + 1 + j)"
          by blast
        have "stops_at2 ?G V (Suc j)"
          using False j(1) by (simp add: stops_at2_Suc)
        moreover have "y = Inr ((?G ^^ Suc (Suc j)) V, it + Suc j)"
          using j(2) by (simp add: funpow_swap1)
        ultimately show ?thesis by blast
      qed
    qed
  qed
  then show ?thesis using P R A V W by blast
qed

lemma compute_optimal_state_values_Some:
  assumes S: "mdp_S self = S" and A: "mdp_A self = A"
    and Pe: "nextStateProbability ops (environment self) = P"
    and Re: "rewardsTable ops (environment self) = R"
    and P: "is_tensor S A S P" and R: "is_tensor S A S R" and A0: "0 < A"
  shows "compute_optimal_state_values ops self discountGamma = Some y \<longleftrightarrow>
         (\<exists>j. stops_at (value_sweep S A P R discountGamma) (replicate S 0) j \<and>
              y = Inr (value_iterate S A P R discountGamma (Suc j), Suc j))"
proof -
  have len: "length (replicate S (0::real)) = S" by simp
  show ?thesis
    using osv_loop_Some [OF _ P R A0 len refl, of discountGamma 1 y]
      osv_loop_stops [OF P R A0 len, of discountGamma _ 1]
    by (auto simp: compute_optimal_state_values_def S A Pe Re Let_def value_iterate_def)
qed

lemma zeros2_matrix: "is_matrix S A (zeros2 S A)"
  by (simp add: zeros2_def is_matrix_def list_all_length)

lemma compute_optimal_action_values_Some:
  assumes S: "mdp_S self = S" and A: "mdp_A self = A"
    and Pe: "nextStateProbability ops (environment self) = P"
    and Re: "rewardsTable ops (environment self) = R"
    and P: "is_tensor S A S P" and R: "is_tensor S A S R" and A0: "0 < A"
  shows "compute_optimal_action_values ops self discountGamma = Some y \<longleftrightarrow>
         (\<exists>j. stops_at2 (action_sweep S A P R discountGamma) (zeros2 S A) j \<and>
              y = Inr (action_iterate S A P R discountGamma (Suc j), Suc j))"
  using oav_loop_Some [OF _ P R A0 zeros2_matrix refl, of discountGamma 1 y]
    oav_loop_stops [OF P R A0 zeros2_matrix, of discountGamma _ 1]
  by (auto simp: compute_optimal_action_values_def S A Pe Re Let_def action_iterate_def)

lemma row_max_action_sweep:
  assumes "0 < A"
  shows "row_max (action_sweep S A P R discountGamma Q) =
         value_sweep S A P R discountGamma (row_max Q)"
  using assms
  by (simp add: row_max_def action_sweep_def value_sweep_def comp_def Max_map_upt
      del: set_map set_upt)

lemma row_max_zeros2: "0 < A \<Longrightarrow> row_max (zeros2 S A) = replicate S 0"
  by (simp add: row_max_def zeros2_def)

lemma row_max_action_iterate:
  assumes "0 < A"
  shows "row_max (action_iterate S A P R discountGamma k) = value_iterate S A P R discountGamma k"
proof (induction k)
  case 0
  then show ?case
    using assms by (simp add: action_iterate_def value_iterate_def row_max_zeros2)
next
  case (Suc k)
  then show ?case
    using row_max_action_sweep [OF assms, of S P R discountGamma]
    by (simp add: action_iterate_def value_iterate_def)
qed

lemma action_iterate_matrix: "is_matrix S A (action_iterate S A P R discountGamma k)"
  by (cases k) (simp_all add: action_iterate_def zeros2_matrix action_sweep_matrix)

lemma value_iterate_length: "length (value_iterate S A P R discountGamma k) = S"
  by (cases k) (simp_all add: value_iterate_def value_sweep_length)

lemma improvement_of_commute:
  assumes len: "length xs = length ys"
  shows "improvement_of ys xs = improvement_of xs ys"
proof -
  have "improvement_of ys xs = (\<Sum>i<length xs. \<bar>ys ! i - xs ! i\<bar>)"
    using len by (intro improvement_of_sum) simp_all
  also have "\<dots> = (\<Sum>i<length xs. \<bar>xs ! i - ys ! i\<bar>)"
    by (intro sum.cong refl abs_minus_commute)
  also have "\<dots> = improvement_of xs ys"
    using len by (intro improvement_of_sum [symmetric]) simp_all
  finally show ?thesis .
qed

lemma Max_le_Max_plus:
  fixes us vs :: "real list"
  assumes l: "length us = length vs" and n: "us \<noteq> []"
  shows "Max (set us) \<le> Max (set vs) + improvement_of us vs"
proof -
  have "Max (set us) \<in> set us" using n by (intro Max_in) simp_all
  then obtain i where i: "i < length us" and m: "us ! i = Max (set us)"
    by (auto simp: in_set_conv_nth)
  have iv: "i < length vs" using i l by simp
  have "\<bar>us ! i - vs ! i\<bar> \<le> improvement_of us vs"
    using refl l [symmetric] i by (rule improvement_of_bound)
  then have "us ! i \<le> vs ! i + improvement_of us vs" by linarith
  moreover have "vs ! i \<in> set vs" using iv by simp
  then have "vs ! i \<le> Max (set vs)" by (intro Max_ge) simp_all
  ultimately show ?thesis using m by linarith
qed

lemma Max_nth_diff:
  fixes xs ys :: "real list"
  assumes len: "length xs = length ys" and ne: "xs \<noteq> []"
  shows "\<bar>Max (set xs) - Max (set ys)\<bar> \<le> improvement_of xs ys"
proof -
  have ney: "ys \<noteq> []" using len ne by auto
  have 1: "Max (set xs) \<le> Max (set ys) + improvement_of xs ys"
    using len ne by (rule Max_le_Max_plus)
  have 2: "Max (set ys) \<le> Max (set xs) + improvement_of ys xs"
    using len [symmetric] ney by (rule Max_le_Max_plus)
  from 1 2 improvement_of_commute [OF len] show ?thesis by linarith
qed

lemma improvement_of2_sum:
  assumes "is_matrix S A Q'" "is_matrix S A Q"
  shows "improvement_of2 Q' Q = (\<Sum>s<S. improvement_of (Q' ! s) (Q ! s))"
proof -
  have l: "length Q' = S" "length Q = S"
    using assms by (simp_all add: is_matrix_def)
  have "improvement_of2 Q' Q = (\<Sum>i = 0..<S. map (\<lambda>(r, r'). improvement_of r r') (zip Q' Q) ! i)"
    using l by (simp add: improvement_of2_def sum_list_sum_nth)
  also have "\<dots> = (\<Sum>i = 0..<S. improvement_of (Q' ! i) (Q ! i))"
    using l by (intro sum.cong) simp_all
  finally show ?thesis by (simp add: atLeast0LessThan)
qed

lemma improvement_row_max_le:
  assumes Q': "is_matrix S A Q'" and Q: "is_matrix S A Q" and A: "0 < A"
  shows "improvement_of (row_max Q') (row_max Q) \<le> improvement_of2 Q' Q"
proof -
  have l: "length (row_max Q') = S" "length (row_max Q) = S"
    using Q' Q by (simp_all add: row_max_def is_matrix_def)
  have "improvement_of (row_max Q') (row_max Q) = (\<Sum>s<S. \<bar>row_max Q' ! s - row_max Q ! s\<bar>)"
    using l by (rule improvement_of_sum)
  also have "\<dots> \<le> (\<Sum>s<S. improvement_of (Q' ! s) (Q ! s))"
  proof (rule sum_mono)
    fix s assume "s \<in> {..<S}"
    then have s: "s < S" by simp
    have len: "length (Q' ! s) = A" "length (Q ! s) = A"
      using Q' Q s by (simp_all add: is_matrix_def list_all_length)
    then have "Q' ! s \<noteq> []" using A by auto
    then show "\<bar>row_max Q' ! s - row_max Q ! s\<bar> \<le> improvement_of (Q' ! s) (Q ! s)"
      using Max_nth_diff [of "Q' ! s" "Q ! s"] len row_max_nth [OF Q' s] row_max_nth [OF Q s]
      by simp
  qed
  also have "\<dots> = improvement_of2 Q' Q"
    using improvement_of2_sum [OF Q' Q] by simp
  finally show ?thesis .
qed

lemma stops_at_before:
  assumes "improvement_of ((G ^^ Suc k) V) ((G ^^ k) V) < 1 / 10 ^ 4"
  shows "\<exists>j\<le>k. stops_at G V j"
proof -
  let ?c = "\<lambda>k. improvement_of ((G ^^ Suc k) V) ((G ^^ k) V) < 1 / 10 ^ 4"
  have "?c (LEAST k. ?c k)" using assms by (rule LeastI)
  moreover have "\<forall>i<(LEAST k. ?c k). \<not> ?c i"
    using not_less_Least by blast
  moreover have "(LEAST k. ?c k) \<le> k" using assms by (rule Least_le)
  ultimately show ?thesis
    unfolding stops_at_def by blast
qed

lemma value_stops_before_action:
  assumes A: "0 < A"
    and st: "stops_at2 (action_sweep S A P R discountGamma) (zeros2 S A) j"
  shows "\<exists>j'\<le>j. stops_at (value_sweep S A P R discountGamma) (replicate S 0) j'"
proof -
  have "improvement_of2 (action_iterate S A P R discountGamma (Suc j))
          (action_iterate S A P R discountGamma j) < 1 / 10 ^ 4"
    using st by (simp add: stops_at2_def action_iterate_def)
  moreover have "improvement_of (row_max (action_iterate S A P R discountGamma (Suc j)))
          (row_max (action_iterate S A P R discountGamma j)) \<le>
        improvement_of2 (action_iterate S A P R discountGamma (Suc j))
          (action_iterate S A P R discountGamma j)"
    by (rule improvement_row_max_le [OF action_iterate_matrix action_iterate_matrix A])
  ultimately have "improvement_of (value_iterate S A P R discountGamma (Suc j))
          (value_iterate S A P R discountGamma j) < 1 / 10 ^ 4"
    by (simp add: row_max_action_iterate [OF A])
  then show ?thesis
    using stops_at_before [where G = "value_sweep S A P R discountGamma" and V = "replicate S 0"
        and k = j]
    by (simp add: value_iterate_def)
qed

lemma Max_image_diff:
  fixes f g :: "nat \<Rightarrow> real"
  assumes A: "0 < A" and d: "\<And>a. a < A \<Longrightarrow> \<bar>f a - g a\<bar> \<le> c"
  shows "\<bar>Max (f ` {..<A}) - Max (g ` {..<A})\<bar> \<le> c"
proof -
  have ne: "{..<A} \<noteq> {}" using A by auto
  have one: "Max (u ` {..<A}) \<le> Max (v ` {..<A}) + c"
    if h: "\<And>a. a < A \<Longrightarrow> \<bar>u a - v a\<bar> \<le> c" for u v :: "nat \<Rightarrow> real"
  proof -
    have "Max (u ` {..<A}) \<in> u ` {..<A}" using ne by (intro Max_in) simp_all
    then obtain a where a: "a < A" and m: "Max (u ` {..<A}) = u a" by auto
    have "u a \<le> v a + c" using h [OF a] by linarith
    moreover have "v a \<le> Max (v ` {..<A})" using a by (intro Max_ge) simp_all
    ultimately show ?thesis using m by linarith
  qed
  have 1: "Max (f ` {..<A}) \<le> Max (g ` {..<A}) + c" using d by (rule one)
  have "\<And>a. a < A \<Longrightarrow> \<bar>g a - f a\<bar> \<le> c" using d by (simp add: abs_minus_commute)
  then have 2: "Max (g ` {..<A}) \<le> Max (f ` {..<A}) + c" by (rule one)
  from 1 2 show ?thesis by linarith
qed

lemma q_backup_contraction:
  assumes P: "is_tensor S A S P"
    and sP: "\<forall>s<S. \<forall>a<A. is_distribution (P ! s ! a)"
    and g: "0 \<le> discountGamma"
    and s: "s < S" and a: "a < A" and d: "\<And>n. n < S \<Longrightarrow> \<bar>V ! n - W ! n\<bar> \<le> c"
  shows "\<bar>q_backup S P R discountGamma V s a - q_backup S P R discountGamma W s a\<bar> \<le>
           discountGamma * c"
  unfolding q_backup_def
proof (rule weighted_diff_bound)
  have len: "length (P ! s ! a) = S"
    using tensor_row_lengths [OF P s a] by simp
  have dist: "is_distribution (P ! s ! a)" using sP s a by simp
  show "(\<Sum>n<S. P ! s ! a ! n) = 1" and "\<And>n. n < S \<Longrightarrow> 0 \<le> P ! s ! a ! n"
    using distribution_sum [OF dist len] by simp_all
next
  fix n assume n: "n < S"
  have "\<bar>R ! s ! a ! n + discountGamma * V ! n - (R ! s ! a ! n + discountGamma * W ! n)\<bar> =
      discountGamma * \<bar>V ! n - W ! n\<bar>"
    using g by (simp add: right_diff_distrib [symmetric] abs_mult)
  also have "\<dots> \<le> discountGamma * c"
    using d [OF n] g by (rule mult_left_mono)
  finally show "\<bar>R ! s ! a ! n + discountGamma * V ! n -
      (R ! s ! a ! n + discountGamma * W ! n)\<bar> \<le> discountGamma * c" .
qed

lemma value_sweep_contraction:
  assumes P: "is_tensor S A S P" and A: "0 < A"
    and sP: "\<forall>s<S. \<forall>a<A. is_distribution (P ! s ! a)"
    and g: "0 \<le> discountGamma"
    and s: "s < S" and d: "\<And>n. n < S \<Longrightarrow> \<bar>V ! n - W ! n\<bar> \<le> c"
  shows "\<bar>value_sweep S A P R discountGamma V ! s - value_sweep S A P R discountGamma W ! s\<bar> \<le>
           discountGamma * c"
proof -
  have "\<bar>Max ((\<lambda>a. q_backup S P R discountGamma V s a) ` {..<A}) -
        Max ((\<lambda>a. q_backup S P R discountGamma W s a) ` {..<A})\<bar> \<le> discountGamma * c"
    using A q_backup_contraction [OF P sP g s _ d] by (intro Max_image_diff) simp_all
  then show ?thesis using s by (simp add: value_sweep_def)
qed

lemma value_iterate_Suc:
  "value_iterate S A P R discountGamma (Suc k) =
     value_sweep S A P R discountGamma (value_iterate S A P R discountGamma k)"
  by (simp add: value_iterate_def)

lemma value_iterate_step_bound:
  assumes P: "is_tensor S A S P" and A: "0 < A"
    and sP: "\<forall>s<S. \<forall>a<A. is_distribution (P ! s ! a)"
    and g: "0 \<le> discountGamma"
  shows "\<forall>n<S. \<bar>value_iterate S A P R discountGamma (Suc (j + m)) ! n -
                 value_iterate S A P R discountGamma (j + m) ! n\<bar> \<le>
           discountGamma ^ m *
             improvement_of (value_iterate S A P R discountGamma (Suc j))
               (value_iterate S A P R discountGamma j)"
proof (induction m)
  case 0
  show ?case
    using improvement_of_bound [OF value_iterate_length value_iterate_length,
        of _ S A P R discountGamma "Suc j" A P R discountGamma j]
    by simp
next
  case (Suc m)
  let ?d = "improvement_of (value_iterate S A P R discountGamma (Suc j))
               (value_iterate S A P R discountGamma j)"
  show ?case
  proof (intro allI impI)
    fix n assume n: "n < S"
    have "\<bar>value_sweep S A P R discountGamma (value_iterate S A P R discountGamma (Suc (j + m))) ! n -
          value_sweep S A P R discountGamma (value_iterate S A P R discountGamma (j + m)) ! n\<bar> \<le>
        discountGamma * (discountGamma ^ m * ?d)"
      using Suc.IH by (intro value_sweep_contraction [OF P A sP g n]) simp
    then show "\<bar>value_iterate S A P R discountGamma (Suc (j + Suc m)) ! n -
                 value_iterate S A P R discountGamma (j + Suc m) ! n\<bar> \<le> discountGamma ^ Suc m * ?d"
      by (simp add: value_iterate_Suc mult.assoc)
  qed
qed

lemma value_iterate_gap:
  assumes P: "is_tensor S A S P" and A: "0 < A"
    and sP: "\<forall>s<S. \<forall>a<A. is_distribution (P ! s ! a)"
    and g: "0 \<le> discountGamma" "discountGamma < 1"
    and n: "n < S"
  shows "(1 - discountGamma) *
           \<bar>value_iterate S A P R discountGamma (Suc j + m) ! n -
            value_iterate S A P R discountGamma (Suc j) ! n\<bar> \<le>
         discountGamma * (1 - discountGamma ^ m) *
           improvement_of (value_iterate S A P R discountGamma (Suc j))
             (value_iterate S A P R discountGamma j)"
proof (induction m)
  case 0
  then show ?case by simp
next
  case (Suc m)
  let ?v = "\<lambda>k. value_iterate S A P R discountGamma k ! n"
  let ?d = "improvement_of (value_iterate S A P R discountGamma (Suc j))
               (value_iterate S A P R discountGamma j)"
  have step: "\<bar>?v (Suc (j + Suc m)) - ?v (j + Suc m)\<bar> \<le> discountGamma ^ Suc m * ?d"
    using value_iterate_step_bound [OF P A sP g(1), of R j "Suc m"] n by blast
  have tri: "\<bar>?v (Suc j + Suc m) - ?v (Suc j)\<bar> \<le>
      \<bar>?v (Suc (j + Suc m)) - ?v (j + Suc m)\<bar> + \<bar>?v (Suc j + m) - ?v (Suc j)\<bar>"
    by simp
  have pos: "0 \<le> 1 - discountGamma" using g by simp
  have "(1 - discountGamma) * \<bar>?v (Suc j + Suc m) - ?v (Suc j)\<bar> \<le>
      (1 - discountGamma) * (\<bar>?v (Suc (j + Suc m)) - ?v (j + Suc m)\<bar> + \<bar>?v (Suc j + m) - ?v (Suc j)\<bar>)"
    using tri pos by (rule mult_left_mono)
  also have "\<dots> = (1 - discountGamma) * \<bar>?v (Suc (j + Suc m)) - ?v (j + Suc m)\<bar> +
      (1 - discountGamma) * \<bar>?v (Suc j + m) - ?v (Suc j)\<bar>"
    by (simp add: distrib_left)
  also have "\<dots> \<le> (1 - discountGamma) * (discountGamma ^ Suc m * ?d) +
      discountGamma * (1 - discountGamma ^ m) * ?d"
    using mult_left_mono [OF step pos] Suc.IH by (intro add_mono) simp_all
  also have "\<dots> = discountGamma * (1 - discountGamma ^ Suc m) * ?d"
    by (simp add: algebra_simps)
  finally show ?case .
qed

lemma scaled_bound:
  fixes x y c :: real
  assumes "0 < c" "c * x \<le> y"
  shows "x \<le> y / c"
  using assms by (simp add: pos_le_divide_eq mult.commute)

lemma flat_values:
  "compute_optimal_state_values flat_ops flat_mdp (9 / 10) = Some (Inr ([9 / 10 ^ 5], 1))"
  by (simp add: compute_optimal_state_values_def flat_ops_def flat_mdp_def
      osv_loop.simps osv_sweep_def osv_state_step_def osv_action_step_def osv_nexts_step_def
      idx1_def idx2_def idx3_def improvement_of_def np_max_def Let_def numeral_2_eq_2)

lemma flat_action_values:
  "compute_optimal_action_values flat_ops flat_mdp (9 / 10) =
     Some (Inr ([[46953279 / 10 ^ 11, 46953279 / 10 ^ 11]], 7))"
  by (simp add: compute_optimal_action_values_def flat_ops_def flat_mdp_def zeros2_def
      oav_loop.simps oav_sweep_def oav_state_step_def oav_action_step_def oav_nexts_step_def
      oav_best_step_def idx1_def idx2_def idx3_def improvement_of_def improvement_of2_def
      Let_def numeral_2_eq_2)

text \<open>
  The claim C2 as stated puts the row maximum of the returned action values within the
  convergence tolerance \<open>1e-4\<close> of the returned state values.  With one state, two
  actions of reward \<open>9e-5\<close> and the default discount 0.9, value iteration stops after
  its first pass with \<open>9e-5\<close>, while action-value iteration, whose improvement sums over
  both actions, goes on to its seventh pass and returns about \<open>4.7e-4\<close>.
\<close>

theorem optimal_action_values_row_max_exceeds_tolerance:
  "is_distribution (nextStateProbability flat_ops (environment flat_mdp) ! 0 ! 0) \<and>
   is_distribution (nextStateProbability flat_ops (environment flat_mdp) ! 0 ! 1) \<and>
   compute_optimal_state_values flat_ops flat_mdp (9 / 10) = Some (Inr ([9 / 10 ^ 5], 1)) \<and>
   compute_optimal_action_values flat_ops flat_mdp (9 / 10) =
     Some (Inr ([[46953279 / 10 ^ 11, 46953279 / 10 ^ 11]], 7)) \<and>
   \<not> \<bar>Max (set ([[46953279 / 10 ^ 11, 46953279 / 10 ^ 11]] ! 0)) - [9 / 10 ^ 5] ! 0\<bar>
       < (1::real) / 10 ^ 4"
  using flat_values flat_action_values
  by (simp add: flat_ops_def is_distribution_def)

text \<open>
  Claim C2, as the code has it.  For tensors of shape \<open>S \<times> A \<times> S\<close> with \<open>A \<ge> 1\<close>, when
  both calls return: the row maximum of the action values after \<open>k\<close> passes equals the
  state values after \<open>k\<close> passes exactly, so the row maximum of the returned \<open>Q\<close> is
  what value iteration holds after as many passes as action-value iteration made; value
  iteration never makes more passes than action-value iteration; and when the rows of
  \<open>P\<close> are probability distributions and \<open>gamma\<close> is in \<open>[0, 1)\<close>, the row maximum of the
  returned \<open>Q\<close> differs from the returned \<open>V\<close> by at most \<open>1e-4 * gamma / (1 - gamma)\<close>
  in every state.
\<close>

theorem optimal_action_values_row_max_bound:
  assumes S: "mdp_S self = S" and A: "mdp_A self = A"
    and Pe: "nextStateProbability ops (environment self) = P"
    and Re: "rewardsTable ops (environment self) = R"
    and P: "is_tensor S A S P" and R: "is_tensor S A S R" and A0: "0 < A"
    and Qr: "compute_optimal_action_values ops self discountGamma = Some (Inr (Q, nQ))"
    and Vr: "compute_optimal_state_values ops self discountGamma = Some (Inr (V, nV))"
  shows "is_matrix S A Q \<and> length V = S \<and>
         Q = action_iterate S A P R discountGamma nQ \<and>
         V = value_iterate S A P R discountGamma nV \<and>
         (\<forall>s<S. Max (set (Q ! s)) = value_iterate S A P R discountGamma nQ ! s) \<and>
         nV \<le> nQ \<and>
         ((\<forall>s<S. \<forall>a<A. is_distribution (P ! s ! a)) \<and> 0 \<le> discountGamma \<and> discountGamma < 1 \<longrightarrow>
            (\<forall>s<S. \<bar>Max (set (Q ! s)) - V ! s\<bar> \<le>
                      discountGamma / (1 - discountGamma) * (1 / 10 ^ 4)))"
proof -
  let ?vi = "value_iterate S A P R discountGamma"
  from Qr obtain j where
    jq: "stops_at2 (action_sweep S A P R discountGamma) (zeros2 S A) j"
    and Q: "Q = action_iterate S A P R discountGamma (Suc j)" and nQ: "nQ = Suc j"
    using compute_optimal_action_values_Some [OF S A Pe Re P R A0, of discountGamma "Inr (Q, nQ)"]
    by auto
  from Vr obtain j' where
    jv: "stops_at (value_sweep S A P R discountGamma) (replicate S 0) j'"
    and V: "V = ?vi (Suc j')" and nV: "nV = Suc j'"
    using compute_optimal_state_values_Some [OF S A Pe Re P R A0, of discountGamma "Inr (V, nV)"]
    by auto
  from value_stops_before_action [OF A0 jq] obtain j'' where
    "j'' \<le> j" "stops_at (value_sweep S A P R discountGamma) (replicate S 0) j''" by blast
  with jv have le: "j' \<le> j"
    using stops_at_unique by blast
  have mQ: "is_matrix S A Q"
    unfolding Q by (rule action_iterate_matrix)
  have lV: "length V = S"
    unfolding V by (rule value_iterate_length)
  have rm: "\<forall>s<S. Max (set (Q ! s)) = ?vi nQ ! s"
  proof (intro allI impI)
    fix s assume s: "s < S"
    have "Max (set (Q ! s)) = row_max Q ! s"
      using row_max_nth [OF mQ s] by simp
    also have "row_max Q = ?vi nQ"
      unfolding Q nQ by (rule row_max_action_iterate [OF A0])
    finally show "Max (set (Q ! s)) = ?vi nQ ! s" .
  qed
  have bound: "(\<forall>s<S. \<forall>a<A. is_distribution (P ! s ! a)) \<and> 0 \<le> discountGamma \<and> discountGamma < 1 \<longrightarrow>
            (\<forall>s<S. \<bar>Max (set (Q ! s)) - V ! s\<bar> \<le>
                      discountGamma / (1 - discountGamma) * (1 / 10 ^ 4))"
  proof (intro impI allI)
    fix s
    assume h: "(\<forall>s<S. \<forall>a<A. is_distribution (P ! s ! a)) \<and> 0 \<le> discountGamma \<and> discountGamma < 1"
      and s: "s < S"
    let ?d = "improvement_of (?vi (Suc j')) (?vi j')"
    have d: "?d < 1 / 10 ^ 4"
      using jv by (simp add: stops_at_def value_iterate_def)
    have d0: "0 \<le> ?d"
      unfolding improvement_of_def by (rule sum_list_nonneg) auto
    have g: "0 \<le> discountGamma" "discountGamma < 1" and sP: "\<forall>s<S. \<forall>a<A. is_distribution (P ! s ! a)"
      using h by simp_all
    have pw: "discountGamma ^ (j - j') \<le> 1"
      using g by (simp add: power_le_one)
    have pw0: "0 \<le> discountGamma ^ (j - j')"
      using g by simp
    have "(1 - discountGamma) * \<bar>?vi (Suc j' + (j - j')) ! s - ?vi (Suc j') ! s\<bar> \<le>
        discountGamma * (1 - discountGamma ^ (j - j')) * ?d"
      using value_iterate_gap [OF P A0 sP g s, of R j' "j - j'"] .
    also have "\<dots> \<le> discountGamma * ?d"
    proof -
      have "discountGamma * (1 - discountGamma ^ (j - j')) \<le> discountGamma * 1"
        using g(1) pw0 by (intro mult_left_mono) simp_all
      then have "discountGamma * (1 - discountGamma ^ (j - j')) * ?d \<le> discountGamma * 1 * ?d"
        using d0 by (rule mult_right_mono)
      then show ?thesis by simp
    qed
    also have "\<dots> \<le> discountGamma * (1 / 10 ^ 4)"
      using less_imp_le [OF d] g(1) by (rule mult_left_mono)
    finally have "(1 - discountGamma) * \<bar>?vi (Suc j) ! s - ?vi (Suc j') ! s\<bar> \<le>
        discountGamma * (1 / 10 ^ 4)"
      using le by simp
    moreover have "0 < 1 - discountGamma" using g(2) by simp
    ultimately have "\<bar>?vi (Suc j) ! s - ?vi (Suc j') ! s\<bar> \<le>
        discountGamma * (1 / 10 ^ 4) / (1 - discountGamma)"
      by (intro scaled_bound)
    also have "discountGamma * (1 / 10 ^ 4) / (1 - discountGamma) =
        discountGamma / (1 - discountGamma) * (1 / 10 ^ 4)"
      by simp
    finally have "\<bar>?vi (Suc j) ! s - ?vi (Suc j') ! s\<bar> \<le>
        discountGamma / (1 - discountGamma) * (1 / 10 ^ 4)" .
    moreover have "Max (set (Q ! s)) = ?vi (Suc j) ! s"
      using rm s nQ by simp
    ultimately show "\<bar>Max (set (Q ! s)) - V ! s\<bar> \<le>
        discountGamma / (1 - discountGamma) * (1 / 10 ^ 4)"
      by (simp only: V)
  qed
  from mQ lV Q V rm le bound show ?thesis
    by (simp add: nQ nV)
qed

theorem optimal_action_values_row_max_bound_witness:
  "mdp_S flat_mdp = 1 \<and> mdp_A flat_mdp = 2 \<and>
   is_tensor 1 2 1 (nextStateProbability flat_ops (environment flat_mdp)) \<and>
   is_tensor 1 2 1 (rewardsTable flat_ops (environment flat_mdp)) \<and> (0::nat) < 2 \<and>
   is_distribution (nextStateProbability flat_ops (environment flat_mdp) ! 0 ! 0) \<and>
   is_distribution (nextStateProbability flat_ops (environment flat_mdp) ! 0 ! 1) \<and>
   compute_optimal_action_values flat_ops flat_mdp (9 / 10) =
     Some (Inr ([[46953279 / 10 ^ 11, 46953279 / 10 ^ 11]], 7)) \<and>
   compute_optimal_state_values flat_ops flat_mdp (9 / 10) = Some (Inr ([9 / 10 ^ 5], 1)) \<and>
   (1::nat) \<le> 7 \<and>
   Max (set ([[46953279 / 10 ^ 11, 46953279 / 10 ^ 11]] ! 0)) =
     value_iterate 1 2 (nextStateProbability flat_ops (environment flat_mdp))
       (rewardsTable flat_ops (environment flat_mdp)) (9 / 10) 7 ! 0 \<and>
   \<bar>Max (set ([[46953279 / 10 ^ 11, 46953279 / 10 ^ 11]] ! 0)) - [9 / 10 ^ 5] ! 0\<bar>
     \<le> ((9::real) / 10) / (1 - 9 / 10) * (1 / 10 ^ 4)"
proof -
  have h1: "mdp_S flat_mdp = 1" and h2: "mdp_A flat_mdp = 2"
    by (simp_all add: flat_mdp_def)
  have h3: "is_tensor 1 2 1 (nextStateProbability flat_ops (environment flat_mdp))"
    and h4: "is_tensor 1 2 1 (rewardsTable flat_ops (environment flat_mdp))"
    by (simp_all add: flat_ops_def is_tensor_def is_matrix_def)
  have h5: "(0::nat) < 2" by simp
  have d1: "is_distribution (nextStateProbability flat_ops (environment flat_mdp) ! 0 ! 0)"
    and d2: "is_distribution (nextStateProbability flat_ops (environment flat_mdp) ! 0 ! 1)"
    by (simp_all add: flat_ops_def is_distribution_def)
  note t = optimal_action_values_row_max_bound
    [OF h1 h2 refl refl h3 h4 h5 flat_action_values flat_values]
  have rm: "Max (set ([[46953279 / 10 ^ 11, 46953279 / 10 ^ 11]] ! 0)) =
     value_iterate 1 2 (nextStateProbability flat_ops (environment flat_mdp))
       (rewardsTable flat_ops (environment flat_mdp)) (9 / 10) 7 ! 0"
    using t [THEN conjunct2, THEN conjunct2, THEN conjunct2, THEN conjunct2, THEN conjunct1,
        rule_format, of 0]
    by simp
  have le: "(1::nat) \<le> 7" by simp
  have st: "(\<forall>s<1. \<forall>a<2.
      is_distribution (nextStateProbability flat_ops (environment flat_mdp) ! s ! a)) \<and>
      (0::real) \<le> 9 / 10 \<and> (9::real) / 10 < 1"
    using d1 d2 by (simp add: less_Suc_eq numeral_2_eq_2)
  have "\<bar>Max (set ([[46953279 / 10 ^ 11, 46953279 / 10 ^ 11]] ! 0)) - [9 / 10 ^ 5] ! 0\<bar>
     \<le> ((9::real) / 10) / (1 - 9 / 10) * (1 / 10 ^ 4)"
    using t [THEN conjunct2, THEN conjunct2, THEN conjunct2, THEN conjunct2, THEN conjunct2,
        THEN conjunct2, THEN mp, OF st, rule_format, of 0]
    by simp
  then have gap: "\<bar>Max (set ([[46953279 / 10 ^ 11, 46953279 / 10 ^ 11]] ! 0)) - [9 / 10 ^ 5] ! 0\<bar>
     \<le> ((9::real) / 10) / (1 - 9 / 10) * (1 / 10 ^ 4)" .
  show ?thesis
    by (intro conjI h1 h2 h3 h4 h5 d1 d2 flat_action_values flat_values le rm gap)
qed

end
